theory Spec2Isabelle
  imports Main "HOL-Library.Word" "HOL-Library.AList"
begin

section \<open>JavaScript base values\<close>

text \<open>
  Strings are lists of code units; \<open>charCodeAt\<close> is \<^const>\<open>of_char\<close>.  Clock readings
  (\<open>Date.now()\<close>) and all millisecond quantities are integers.
\<close>

definition digitChar :: "nat \<Rightarrow> char" where
  "digitChar d = ''0123456789abcdefghijklmnopqrstuvwxyz'' ! d"

text \<open>
  \<open>Number.prototype.toString(radix)\<close> on an integer: the digits of the magnitude, most
  significant first, with a leading minus sign for a negative number.  Only the radices 10
  (template literals) and 36 (the hash) occur in the program.
\<close>

function natToString :: "nat \<Rightarrow> nat \<Rightarrow> string" where
  "natToString r n =
     (if n < r \<or> r < 2 then [digitChar n]
      else natToString r (n div r) @ [digitChar (n mod r)])"
  by pat_completeness auto
termination
  by (relation "measure snd") auto

declare natToString.simps [simp del]

definition numberToString :: "nat \<Rightarrow> int \<Rightarrow> string" where
  "numberToString r i =
     (if i < 0 then CHR ''-'' # natToString r (nat (- i)) else natToString r (nat i))"

section \<open>JavaScript objects\<close>

text \<open>
  Values that travel through \<open>JSON.parse\<close> and are handed on untyped: the inbound frames and
  the mails delivered to subscribers.  An object is the list of its own properties; reading a
  property that is absent gives \<open>undefined\<close>.  Thrown errors are represented by their message.
\<close>

datatype jsval =
    JUndef
  | JNull
  | JBool bool
  | JNum int
  | JStr string
  | JArr "jsval list"
  | JObj "(string \<times> jsval) list"

type_synonym error = string

fun truthy :: "jsval \<Rightarrow> bool" where
  "truthy JUndef = False"
| "truthy JNull = False"
| "truthy (JBool b) = b"
| "truthy (JNum n) = (n \<noteq> 0)"
| "truthy (JStr s) = (s \<noteq> [])"
| "truthy (JArr xs) = True"
| "truthy (JObj kvs) = True"

fun getProp :: "jsval \<Rightarrow> string \<Rightarrow> jsval" where
  "getProp (JObj kvs) k = (case map_of kvs k of None \<Rightarrow> JUndef | Some v \<Rightarrow> v)"
| "getProp v k = JUndef"

text \<open>\<open>haystack.includes(needle)\<close> on strings: the needle occurs at some position.\<close>

fun str_includes :: "string \<Rightarrow> string \<Rightarrow> bool" where
  "str_includes [] needle = (needle = [])"
| "str_includes (c # cs) needle =
     (take (length needle) (c # cs) = needle \<or> str_includes cs needle)"

section \<open>MailQueue\<close>

definition MESSAGE_DEDUP_WINDOW_MS :: int where
  "MESSAGE_DEDUP_WINDOW_MS = 500"

text \<open>
  The fields of \<open>QueuedMail\<close> and of the queue carry a prefix, because \<open>id\<close>, \<open>subject\<close>,
  \<open>body\<close> and \<open>headers\<close> are also fields of other objects of the program.
\<close>

record QueuedMail =
  qm_id :: string
  qm_to :: string
  qm_subject :: string
  qm_body :: string
  qm_timestamp :: int
  qm_attempts :: int
  qm_hash :: string
  qm_headers :: "(string \<times> string) list option"

record MailQueueConfig =
  cfg_dedupeWindowMs :: "int option"
  cfg_maxAttempts :: "int option"
  cfg_maxDebugLog :: "int option"
  cfg_enableConsoleLogging :: "bool option"

text \<open>
  \<open>recentHashes\<close> is a JavaScript \<open>Map\<close>: an association list with unique keys in
  insertion order.  A debug-log entry is the pair of the clock reading and the message, for
  the string \<open>[<ISO time>] <message>\<close>; \<open>console\<close> collects what \<open>console.log\<close> prints
  (without its constant prefix).  \<open>cleanupInterval\<close> tells whether the sweep timer is armed.
\<close>

record MailQueue =
  queue :: "QueuedMail list"
  recentHashes :: "(string \<times> int) list"
  dedupeWindowMs :: int
  maxAttempts :: int
  debugLog :: "(int \<times> string) list"
  maxDebugLog :: int
  enableConsoleLogging :: bool
  console :: "string list"
  cleanupInterval :: bool

definition nullish :: "'a option \<Rightarrow> 'a \<Rightarrow> 'a" where
  "nullish v d = (case v of None \<Rightarrow> d | Some x \<Rightarrow> x)"

definition newMailQueue :: "MailQueueConfig \<Rightarrow> MailQueue" where
  "newMailQueue config =
     \<lparr> queue = [], recentHashes = [],
       dedupeWindowMs = nullish (cfg_dedupeWindowMs config) MESSAGE_DEDUP_WINDOW_MS,
       maxAttempts = nullish (cfg_maxAttempts config) 3,
       debugLog = [],
       maxDebugLog = nullish (cfg_maxDebugLog config) 100,
       enableConsoleLogging = nullish (cfg_enableConsoleLogging config) True,
       console = [],
       cleanupInterval = True \<rparr>"

definition addDebugLog :: "int \<Rightarrow> string \<Rightarrow> MailQueue \<Rightarrow> MailQueue" where
  "addDebugLog now message s =
     (let pushed = debugLog s @ [(now, message)];
          kept = (if int (length pushed) > maxDebugLog s then tl pushed else pushed)
      in s\<lparr> debugLog := kept,
             console := (if enableConsoleLogging s then console s @ [message] else console s) \<rparr>)"

text \<open>
  \<open>generateHash\<close>: the loop \<open>hash = ((hash << 5) - hash) + char; hash = hash & hash\<close> keeps a
  32-bit signed integer, here a 32-bit word read with \<^const>\<open>sint\<close>; the result is printed
  in radix 36.
\<close>

definition generateHash :: "string \<Rightarrow> string \<Rightarrow> string \<Rightarrow> string" where
  "generateHash to subject body =
     (let content = to @ ''|'' @ subject @ ''|'' @ take 200 body;
          hash = fold (\<lambda>c h. (push_bit 5 h - h) + of_nat (of_char c)) content (0 :: 32 word)
      in numberToString 36 (sint hash))"

text \<open>
  \<open>enqueueWithId\<close>.  The guard is \<open>lastSeen && (now - lastSeen) < dedupeWindowMs\<close>: a missing
  entry and a stored reading of 0 are both falsy.
\<close>

definition enqueueWithId ::
  "string \<Rightarrow> string \<Rightarrow> string \<Rightarrow> string \<Rightarrow> (string \<times> string) list option \<Rightarrow> int
     \<Rightarrow> MailQueue \<Rightarrow> bool \<times> MailQueue" where
  "enqueueWithId ident to subject body hdrs now s =
     (let hash = generateHash to subject body;
          lastSeen = map_of (recentHashes s) hash
      in if (case lastSeen of None \<Rightarrow> False
             | Some seen \<Rightarrow> seen \<noteq> 0 \<and> now - seen < dedupeWindowMs s)
         then (False, addDebugLog now (''Duplicate message rejected: '' @ subject @ '' to '' @ to) s)
         else
           (let mail = \<lparr> qm_id = ident, qm_to = to, qm_subject = subject, qm_body = body,
                          qm_timestamp = now, qm_attempts = 0, qm_hash = hash,
                          qm_headers = hdrs \<rparr>
            in (True,
                addDebugLog now
                  (''Message queued: '' @ subject @ '' to '' @ to @ '' ('' @ ident @ '')'')
                  (s\<lparr> queue := queue s @ [mail],
                       recentHashes := AList.update hash now (recentHashes s) \<rparr>))))"

text \<open>\<open>enqueue\<close> draws a fresh identifier (\<open>uuidv4()\<close>, here the argument \<open>uuid\<close>).\<close>

definition enqueue ::
  "string \<Rightarrow> string \<Rightarrow> string \<Rightarrow> string \<Rightarrow> (string \<times> string) list option \<Rightarrow> int
     \<Rightarrow> MailQueue \<Rightarrow> string option \<times> MailQueue" where
  "enqueue uuid to subject body hdrs now s =
     (case enqueueWithId uuid to subject body hdrs now s of
        (ok, s') \<Rightarrow> (if ok then Some uuid else None, s'))"

definition dequeue :: "int \<Rightarrow> MailQueue \<Rightarrow> QueuedMail option \<times> MailQueue" where
  "dequeue now s =
     (case queue s of
        [] \<Rightarrow> (None, s)
      | m # rest \<Rightarrow>
          (let mail = m\<lparr> qm_attempts := qm_attempts m + 1 \<rparr>
           in (Some mail,
               addDebugLog now
                 (''Message dequeued: '' @ qm_subject mail @ '' to '' @ qm_to mail
                    @ '' (attempt '' @ numberToString 10 (qm_attempts mail) @ '')'')
                 (s\<lparr> queue := rest \<rparr>))))"

definition requeue :: "QueuedMail \<Rightarrow> int \<Rightarrow> MailQueue \<Rightarrow> MailQueue" where
  "requeue mail now s =
     (if qm_attempts mail < maxAttempts s
      then addDebugLog now
             (''Message requeued: '' @ qm_subject mail @ '' to '' @ qm_to mail
                @ '' (attempt '' @ numberToString 10 (qm_attempts mail) @ '')'')
             (s\<lparr> queue := mail # queue s \<rparr>)
      else addDebugLog now
             (''Message dropped after '' @ numberToString 10 (maxAttempts s) @ '' attempts: ''
                @ qm_subject mail @ '' to '' @ qm_to mail)
             s)"

definition cleanupHashes :: "int \<Rightarrow> MailQueue \<Rightarrow> MailQueue" where
  "cleanupHashes now s =
     (let expired = map fst (filter (\<lambda>(h, seen). now - seen > dedupeWindowMs s * 2)
                                    (recentHashes s));
          s' = s\<lparr> recentHashes := fold AList.delete expired (recentHashes s) \<rparr>
      in if length expired > 0
         then addDebugLog now
                (''Cleaned up '' @ numberToString 10 (int (length expired)) @ '' expired hash(es)'')
                s'
         else s')"

definition clear :: "int \<Rightarrow> MailQueue \<Rightarrow> MailQueue" where
  "clear now s = addDebugLog now ''Queue cleared'' (s\<lparr> queue := [], recentHashes := [] \<rparr>)"

text \<open>
  A call of \<open>enqueueWithId\<close> with its arguments and the clock reading it sees; a run of calls
  threads the queue through them.  \<open>accepted\<close> lists the calls of a run that returned true.
\<close>

record enq_call =
  call_id :: string
  call_to :: string
  call_subject :: string
  call_body :: string
  call_headers :: "(string \<times> string) list option"
  call_now :: int

definition enq :: "enq_call \<Rightarrow> MailQueue \<Rightarrow> bool \<times> MailQueue" where
  "enq c s = enqueueWithId (call_id c) (call_to c) (call_subject c) (call_body c)
               (call_headers c) (call_now c) s"

definition digest_input :: "enq_call \<Rightarrow> string \<times> string \<times> string" where
  "digest_input c = (call_to c, call_subject c, take 200 (call_body c))"

definition call_hash :: "enq_call \<Rightarrow> string" where
  "call_hash c = generateHash (call_to c) (call_subject c) (call_body c)"

fun run_enq :: "enq_call list \<Rightarrow> MailQueue \<Rightarrow> MailQueue" where
  "run_enq [] s = s"
| "run_enq (c # cs) s = run_enq cs (snd (enq c s))"

fun accepted :: "enq_call list \<Rightarrow> MailQueue \<Rightarrow> enq_call list" where
  "accepted [] s = []"
| "accepted (c # cs) s =
     (if fst (enq c s) then c # accepted cs (snd (enq c s)) else accepted cs (snd (enq c s)))"

text \<open>
  The timestamp that the run of calls \<open>cs\<close> from \<open>s\<close> should leave for the digest \<open>h\<close>, read off
  the calls alone: the clock reading of the last accepted call with that digest, or what \<open>s\<close>
  held when there is none.
\<close>

definition last_accepted :: "string \<Rightarrow> enq_call list \<Rightarrow> MailQueue \<Rightarrow> int option" where
  "last_accepted h cs s =
     (case filter (\<lambda>c. call_hash c = h) (accepted cs s) of
        [] \<Rightarrow> map_of (recentHashes s) h
      | c # rest \<Rightarrow> Some (call_now (last (c # rest))))"

text \<open>A queue with the default configuration, and a call with subject \<open>s\<close> and body \<open>b\<close>.\<close>

definition defaultQueue :: MailQueue where
  "defaultQueue = newMailQueue \<lparr> cfg_dedupeWindowMs = None, cfg_maxAttempts = None,
      cfg_maxDebugLog = None, cfg_enableConsoleLogging = None \<rparr>"

definition mkCall :: "string \<Rightarrow> string \<Rightarrow> int \<Rightarrow> enq_call" where
  "mkCall ident to now =
     \<lparr> call_id = ident, call_to = to, call_subject = ''s'', call_body = ''b'',
       call_headers = None, call_now = now \<rparr>"

section \<open>ServiceBase: response correlation\<close>

text \<open>
  The expected subject is a string or a \<open>RegExp\<close>; a regular expression is represented by its
  \<open>test\<close> method, applied to the value it is given.
\<close>

datatype expected_subject = Literal string | Pattern "jsval \<Rightarrow> bool"

text \<open>
  \<open>value.includes(needle)\<close> as JavaScript dispatches it: substring search on a string, element
  search on an array, and a \<open>TypeError\<close> on every other JSON value, which has no such method.
\<close>

fun js_includes :: "jsval \<Rightarrow> string \<Rightarrow> error + bool" where
  "js_includes (JStr s) needle = Inr (str_includes s needle)"
| "js_includes (JArr xs) needle = Inr (JStr needle \<in> set xs)"
| "js_includes v needle = Inl ''TypeError''"

definition isResponse :: "jsval \<Rightarrow> string \<Rightarrow> expected_subject \<Rightarrow> error + bool" where
  "isResponse mail messageId expectedSubject =
     (if getProp mail ''in_reply_to'' = JStr messageId then Inr True
      else case expectedSubject of
        Literal expected \<Rightarrow>
          (let responsePattern = ''Response: '' @ expected;
               rePattern = ''Re: '' @ expected
           in if getProp mail ''subject'' = JStr responsePattern then Inr True
              else if getProp mail ''subject'' = JStr rePattern then Inr True
              else js_includes (getProp mail ''subject'') expected)
      | Pattern test \<Rightarrow> Inr (test (getProp mail ''subject'')))"

section \<open>MailHandlerRegistry\<close>

text \<open>
  A handler result; \<open>res_error\<close> holds the message of the \<open>Error\<close> object when there is one.
  A handler is an object with an id, an optional priority and two methods; either method may
  throw (or, for \<open>handle\<close>, return a promise that rejects), which is the left summand.
\<close>

record MailHandlerResult =
  handled :: bool
  res_data :: jsval
  res_error :: "error option"

record MailHandler =
  handler_id :: string
  priority :: "int option"
  canHandle :: "jsval \<Rightarrow> error + bool"
  handle :: "jsval \<Rightarrow> error + MailHandlerResult"

text \<open>\<open>handlers\<close> is a \<open>Map\<close> in insertion order, which is the order of registration.\<close>

record MailHandlerRegistry =
  handlers :: "(string \<times> MailHandler) list"
  sortedHandlers :: "MailHandler list"

definition newRegistry :: MailHandlerRegistry where
  "newRegistry = \<lparr> handlers = [], sortedHandlers = [] \<rparr>"

definition priorityOrZero :: "MailHandler \<Rightarrow> int" where
  "priorityOrZero h = (case priority h of None \<Rightarrow> 0 | Some p \<Rightarrow> p)"

text \<open>
  \<open>Array.prototype.sort\<close> is a stable sort; with the comparator
  \<open>(b.priority || 0) - (a.priority || 0)\<close> it sorts by descending priority.
\<close>

definition updateSortedHandlers :: "MailHandlerRegistry \<Rightarrow> MailHandlerRegistry" where
  "updateSortedHandlers s =
     s\<lparr> sortedHandlers := sort_key (\<lambda>h. - priorityOrZero h) (map snd (handlers s)) \<rparr>"

definition register :: "MailHandler \<Rightarrow> MailHandlerRegistry \<Rightarrow> error + MailHandlerRegistry" where
  "register handler s =
     (if map_of (handlers s) (handler_id handler) \<noteq> None
      then Inl (''Handler with id '' @ [CHR 0x27] @ handler_id handler @ [CHR 0x27]
                  @ '' already registered'')
      else Inr (updateSortedHandlers
                  (s\<lparr> handlers := AList.update (handler_id handler) handler (handlers s) \<rparr>)))"

definition unregister :: "string \<Rightarrow> MailHandlerRegistry \<Rightarrow> bool \<times> MailHandlerRegistry" where
  "unregister handlerId s =
     (let deleted = (map_of (handlers s) handlerId \<noteq> None);
          s' = s\<lparr> handlers := AList.delete handlerId (handlers s) \<rparr>
      in if deleted then (True, updateSortedHandlers s') else (False, s'))"

definition clearRegistry :: "MailHandlerRegistry \<Rightarrow> MailHandlerRegistry" where
  "clearRegistry s = s\<lparr> handlers := [], sortedHandlers := [] \<rparr>"

text \<open>
  \<open>process\<close>: the loop over \<open>sortedHandlers\<close>.  Beside the results it returns the method calls
  it made, in order, so that which handlers were visited and invoked can be read off.
\<close>

datatype handler_call = CallCanHandle string | CallHandle string

definition thrown :: "error \<Rightarrow> MailHandlerResult" where
  "thrown e = \<lparr> handled = False, res_data = JUndef, res_error = Some e \<rparr>"

fun process_loop ::
  "MailHandler list \<Rightarrow> jsval \<Rightarrow> MailHandlerResult list \<times> handler_call list" where
  "process_loop [] mail = ([], [])"
| "process_loop (h # hs) mail =
     (case canHandle h mail of
        Inl e \<Rightarrow>
          (case process_loop hs mail of
             (rs, cs) \<Rightarrow> (thrown e # rs, CallCanHandle (handler_id h) # cs))
      | Inr False \<Rightarrow>
          (case process_loop hs mail of
             (rs, cs) \<Rightarrow> (rs, CallCanHandle (handler_id h) # cs))
      | Inr True \<Rightarrow>
          (case handle h mail of
             Inl e \<Rightarrow>
               (case process_loop hs mail of
                  (rs, cs) \<Rightarrow>
                    (thrown e # rs, CallCanHandle (handler_id h) # CallHandle (handler_id h) # cs))
           | Inr result \<Rightarrow>
               (if handled result \<and> res_error result = None
                then ([result], [CallCanHandle (handler_id h), CallHandle (handler_id h)])
                else (case process_loop hs mail of
                        (rs, cs) \<Rightarrow>
                          (result # rs,
                           CallCanHandle (handler_id h) # CallHandle (handler_id h) # cs)))))"

definition process ::
  "jsval \<Rightarrow> MailHandlerRegistry \<Rightarrow> MailHandlerResult list \<times> handler_call list" where
  "process mail s = process_loop (sortedHandlers s) mail"

text \<open>Registry operations, and the registry that a sequence of them builds.\<close>

datatype registry_op = Register MailHandler | Unregister string | Clear

fun apply_registry_op :: "registry_op \<Rightarrow> MailHandlerRegistry \<Rightarrow> MailHandlerRegistry" where
  "apply_registry_op (Register h) s = (case register h s of Inl e \<Rightarrow> s | Inr s' \<Rightarrow> s')"
| "apply_registry_op (Unregister k) s = snd (unregister k s)"
| "apply_registry_op Clear s = clearRegistry s"

definition run_registry :: "registry_op list \<Rightarrow> MailHandlerRegistry" where
  "run_registry ops = fold apply_registry_op ops newRegistry"

text \<open>
  The reading of \<open>process\<close> in terms of the handler list alone: a handler fully handles the
  mail when it accepts it and returns a result with \<open>handled\<close> and no error; the handlers
  visited are those up to and including the first such handler.
\<close>

definition fully_handles :: "jsval \<Rightarrow> MailHandler \<Rightarrow> bool" where
  "fully_handles mail h =
     (canHandle h mail = Inr True \<and>
      (case handle h mail of Inl e \<Rightarrow> False
       | Inr r \<Rightarrow> handled r \<and> res_error r = None))"

definition visited :: "MailHandler list \<Rightarrow> jsval \<Rightarrow> MailHandler list" where
  "visited hs mail =
     takeWhile (\<lambda>h. \<not> fully_handles mail h) hs
       @ take 1 (dropWhile (\<lambda>h. \<not> fully_handles mail h) hs)"

definition calls_of :: "jsval \<Rightarrow> MailHandler \<Rightarrow> handler_call list" where
  "calls_of mail h =
     CallCanHandle (handler_id h)
       # (if canHandle h mail = Inr True then [CallHandle (handler_id h)] else [])"

definition results_of :: "jsval \<Rightarrow> MailHandler \<Rightarrow> MailHandlerResult list" where
  "results_of mail h =
     (case canHandle h mail of
        Inl e \<Rightarrow> [thrown e]
      | Inr False \<Rightarrow> []
      | Inr True \<Rightarrow> (case handle h mail of Inl e \<Rightarrow> [thrown e] | Inr r \<Rightarrow> [r]))"

text \<open>
  What every registry operation maintains: \<open>sortedHandlers\<close> is the stable descending sort of
  the registered handlers.
\<close>

definition registry_inv :: "MailHandlerRegistry \<Rightarrow> bool" where
  "registry_inv s \<longleftrightarrow>
     sortedHandlers s = sort_key (\<lambda>h. - priorityOrZero h) (map snd (handlers s))"

text \<open>A handler with constant answers, and a registry of five of them.\<close>

definition mkHandler ::
  "string \<Rightarrow> int option \<Rightarrow> error + bool \<Rightarrow> error + MailHandlerResult \<Rightarrow> MailHandler" where
  "mkHandler ident prio can res =
     \<lparr> handler_id = ident, priority = prio, canHandle = (\<lambda>mail. can),
       handle = (\<lambda>mail. res) \<rparr>"

definition okResult :: MailHandlerResult where
  "okResult = \<lparr> handled = True, res_data = JUndef, res_error = None \<rparr>"

definition demoOps :: "registry_op list" where
  "demoOps =
     [Register (mkHandler ''low'' None (Inr True) (Inr okResult)),
      Register (mkHandler ''deaf'' (Some 5) (Inr False) (Inr okResult)),
      Register (mkHandler ''boom'' (Some 9) (Inr True) (Inl ''boom'')),
      Register (mkHandler ''mid'' (Some 5) (Inr True) (Inr okResult)),
      Register (mkHandler ''last'' (Some (- 1)) (Inr True) (Inr okResult))]"

section \<open>Transport, mail adapter and reply-wait\<close>

text \<open>
  One record holds the \<open>MailTransportAdapter\<close> object (which extends \<open>WebSocketTransport\<close> and
  \<open>BaseTransport\<close>), the reply-waits that \<open>ServiceBase.sendAndWait\<close> has registered on it, the
  part of the runtime the code acts on (timers, sockets), and what an observer sees (emitted
  events, settled promises, frames on the wire).  The program is single-threaded: every
  transition is one call from outside or one callback of the event loop, run to completion
  together with the promise reactions it triggers.
\<close>

datatype TransportState = DISCONNECTED | CONNECTING | CONNECTED | DISCONNECTING | ERROR

datatype TransportEvent =
    STATE_CHANGE TransportState TransportState
  | EV_CONNECTED
  | EV_DISCONNECTED
  | EV_MESSAGE jsval
  | EV_ERROR

record TransportMessage =
  msg_id :: string
  msg_type :: string
  msg_payload :: jsval
  msg_metadata :: jsval

record TransportResponse =
  resp_id :: jsval
  success :: bool
  resp_payload :: jsval
  resp_error :: jsval
  resp_metadata :: jsval

datatype 'a outcome = Resolved 'a | Rejected error

text \<open>
  The configuration after the constructor has merged the defaults; a number that is absent or
  0 is falsy and replaced where the code writes \<open>||\<close>.  \<open>browser\<close> is \<open>typeof window !== 'undefined'\<close>.
\<close>

record TransportConfig =
  timeout :: int
  reconnect :: bool
  reconnectInterval :: int
  maxReconnectAttempts :: int
  heartbeatInterval :: int
  browser :: bool

record UserConfig =
  user_timeout :: "int option"
  user_reconnect :: "bool option"
  user_reconnectInterval :: "int option"
  user_maxReconnectAttempts :: "int option"
  user_heartbeatInterval :: "int option"
  user_defaultFrom :: "string option"
  user_serviceTimeout :: "int option"

definition orElse :: "int \<Rightarrow> int \<Rightarrow> int" where
  "orElse x d = (if x = 0 then d else x)"

definition UI_OPERATION_TIMEOUT_MS :: int where
  "UI_OPERATION_TIMEOUT_MS = 180000"

text \<open>
  Timer handles.  A handle names the callback it runs: the request timeout of the \<open>send\<close> call
  with a given number and message id, the connect timeout of a socket, a reconnect timer, a
  heartbeat interval, the timeout of a reply-wait, the deadline of \<open>sendMailTo\<close>.
\<close>

datatype timer =
    RequestTimer nat string
  | ConnectTimer nat
  | ReconnectTimer nat
  | HeartbeatTimer nat
  | WaitTimer nat
  | MailDeadline nat

datatype caller = Explicit | Reconnect

text \<open>
  A socket with its \<open>readyState\<close> (0 connecting, 1 open, 2 closing, 3 closed), whether the
  listeners of \<open>createConnection\<close> are still attached, whether the promise of that
  \<open>createConnection\<close> is still pending, and who called the \<open>connect\<close> that awaits it.
\<close>

record Socket =
  readyState :: nat
  listening :: bool
  awaited :: bool
  origin :: caller

datatype wire_item = Frame jsval | Ping | Close

datatype mail_handler = WaitHandler nat | Subscriber nat

record Wait =
  w_messageId :: string
  w_expected :: expected_subject
  w_subject :: string
  w_following :: bool

text \<open>An outbound mail; \<open>from_address\<close> may hold whatever the identity confirmation carried.\<close>

record Mail =
  message_id :: string
  from_address :: jsval
  to_address :: string
  subject :: string
  body :: string
  timestamp :: string
  headers :: "(string \<times> string) list"
  in_reply_to :: "string option"

record MailOptions =
  opt_inReplyTo :: "string option"
  opt_timeout :: int
  opt_headers :: "(string \<times> string) list option"

record WaitOptions =
  wopt_timeout :: int
  wopt_inReplyTo :: "string option"
  wopt_headers :: "(string \<times> string) list option"
  wopt_expectSubject :: "expected_subject option"

text \<open>
  What a call reads from its environment: the clock, the ISO rendering of the date, the ids
  that \<open>generateId\<close> and \<open>generateMessageId\<close> draw, whether the socket constructor and
  \<open>ws.send\<close> succeed, and the message of the error that a socket of the \<open>ws\<close> library reports.
\<close>

record env =
  now :: int
  iso :: string
  genId :: string
  genMessageId :: string
  ctorOk :: bool
  sendOk :: bool
  socketError :: string

datatype inbound = Unparsable | Parsed jsval

record System =
  state :: TransportState
  config :: TransportConfig
  ws :: "nat option"
  reconnectAttempts :: int
  reconnectTimer :: "nat option"
  heartbeatTimer :: "nat option"
  pendingRequests :: "(string \<times> nat) list"
  mailHandlers :: "mail_handler list"
  defaultFrom :: jsval
  userEmail :: jsval
  uiAgentEmail :: jsval
  defaultTimeout :: int
  waits :: "(nat \<times> Wait) list"
  timers :: "(timer \<times> int) list"
  sockets :: "Socket list"
  fresh :: nat
  emitted :: "TransportEvent list"
  settled :: "(nat \<times> TransportResponse outcome) list"
  connectLog :: "(caller \<times> error option) list"
  waitSettled :: "(nat \<times> jsval outcome) list"
  received :: "(nat \<times> jsval) list"
  wire :: "(nat \<times> wire_item) list"
  errorLog :: "string list"

definition newSystem :: "UserConfig \<Rightarrow> bool \<Rightarrow> System" where
  "newSystem u inBrowser =
     \<lparr> state = DISCONNECTED,
       config = \<lparr> timeout = nullish (user_timeout u) 30000,
                  reconnect = nullish (user_reconnect u) True,
                  reconnectInterval = nullish (user_reconnectInterval u) 5000,
                  maxReconnectAttempts = nullish (user_maxReconnectAttempts u) 5,
                  heartbeatInterval = nullish (user_heartbeatInterval u) 0,
                  browser = inBrowser \<rparr>,
       ws = None, reconnectAttempts = 0, reconnectTimer = None, heartbeatTimer = None,
       pendingRequests = [], mailHandlers = [],
       defaultFrom = (case user_defaultFrom u of
                        None \<Rightarrow> JStr ''user@mindswarm.ai''
                      | Some a \<Rightarrow> if a = [] then JStr ''user@mindswarm.ai'' else JStr a),
       userEmail = JUndef, uiAgentEmail = JUndef,
       defaultTimeout = orElse (nullish (user_serviceTimeout u) 0) UI_OPERATION_TIMEOUT_MS,
       waits = [], timers = [], sockets = [], fresh = 0, emitted = [], settled = [],
       connectLog = [], waitSettled = [], received = [], wire = [], errorLog = [] \<rparr>"

subsection \<open>Runtime primitives\<close>

definition setTimer :: "timer \<Rightarrow> int \<Rightarrow> System \<Rightarrow> System" where
  "setTimer t deadline s = s\<lparr> timers := AList.update t deadline (timers s) \<rparr>"

definition clearTimer :: "timer \<Rightarrow> System \<Rightarrow> System" where
  "clearTimer t s = s\<lparr> timers := AList.delete t (timers s) \<rparr>"

definition logError :: "string \<Rightarrow> System \<Rightarrow> System" where
  "logError m s = s\<lparr> errorLog := errorLog s @ [m] \<rparr>"

definition settle :: "nat \<Rightarrow> TransportResponse outcome \<Rightarrow> System \<Rightarrow> System" where
  "settle p out s = s\<lparr> settled := settled s @ [(p, out)] \<rparr>"

definition socketAt :: "System \<Rightarrow> nat \<Rightarrow> Socket option" where
  "socketAt s k = (if k < length (sockets s) then Some (sockets s ! k) else None)"

definition isOpen :: "System \<Rightarrow> nat \<Rightarrow> bool" where
  "isOpen s k = (case socketAt s k of None \<Rightarrow> False | Some sock \<Rightarrow> readyState sock = 1)"

definition setReadyState :: "nat \<Rightarrow> nat \<Rightarrow> System \<Rightarrow> System" where
  "setReadyState k r s =
     (case socketAt s k of
        None \<Rightarrow> s
      | Some sock \<Rightarrow> s\<lparr> sockets := (sockets s)[k := sock\<lparr> readyState := r \<rparr>] \<rparr>)"

text \<open>\<open>ws.send(JSON.stringify(frame))\<close>: the frame goes on the wire, or the call throws.\<close>

definition ws_send :: "env \<Rightarrow> nat \<Rightarrow> jsval \<Rightarrow> System \<Rightarrow> error + System" where
  "ws_send e k frame s =
     (if sendOk e then Inr (s\<lparr> wire := wire s @ [(k, Frame frame)] \<rparr>)
      else Inl ''send failed'')"

text \<open>\<open>ws.close()\<close>: a socket that is not yet closing or closed starts closing.\<close>

definition ws_close :: "nat \<Rightarrow> System \<Rightarrow> System" where
  "ws_close k s =
     (let s' = s\<lparr> wire := wire s @ [(k, Close)] \<rparr>
      in case socketAt s k of
           None \<Rightarrow> s'
         | Some sock \<Rightarrow> if readyState sock < 2 then setReadyState k 2 s' else s')"

text \<open>\<open>JSON.stringify\<close> leaves out the properties of an object whose value is \<open>undefined\<close>.\<close>

definition json_obj :: "(string \<times> jsval) list \<Rightarrow> jsval" where
  "json_obj kvs = JObj (filter (\<lambda>(k, v). v \<noteq> JUndef) kvs)"

subsection \<open>The reply-wait predicate applied by a mail handler\<close>

definition cleanup :: "nat \<Rightarrow> System \<Rightarrow> System" where
  "cleanup w s =
     (clearTimer (WaitTimer w) s)\<lparr> mailHandlers := removeAll (WaitHandler w) (mailHandlers s) \<rparr>"

text \<open>
  The promise that the caller of \<open>sendAndWait\<close> holds follows the response promise only once
  \<open>sendMailTo\<close> has succeeded (\<open>w_following\<close>); otherwise it was rejected with the send error,
  and what happens to the response promise is not observed.
\<close>

definition settleWait :: "nat \<Rightarrow> jsval outcome \<Rightarrow> System \<Rightarrow> System" where
  "settleWait w out s =
     (case map_of (waits s) w of
        None \<Rightarrow> s
      | Some wt \<Rightarrow>
          if w_following wt then s\<lparr> waitSettled := waitSettled s @ [(w, out)] \<rparr> else s)"

text \<open>
  \<open>emitMail\<close> iterates over the set of mail handlers; a handler removed before its turn is
  skipped, and an exception of a handler is caught and logged.
\<close>

definition deliver :: "jsval \<Rightarrow> mail_handler \<Rightarrow> System \<Rightarrow> System" where
  "deliver mail h s =
     (if h \<notin> set (mailHandlers s) then s
      else case h of
        Subscriber n \<Rightarrow> s\<lparr> received := received s @ [(n, mail)] \<rparr>
      | WaitHandler w \<Rightarrow>
          (case map_of (waits s) w of
             None \<Rightarrow> s
           | Some wt \<Rightarrow>
               (case isResponse mail (w_messageId wt) (w_expected wt) of
                  Inl err \<Rightarrow> logError ''Mail handler error:'' s
                | Inr False \<Rightarrow> s
                | Inr True \<Rightarrow> settleWait w (Resolved mail) (cleanup w s))))"

definition emitMail :: "jsval \<Rightarrow> System \<Rightarrow> System" where
  "emitMail mail s = fold (deliver mail) (mailHandlers s) s"

subsection \<open>MailTransportAdapter: inbound dispatch and identity\<close>

definition handleMailMessage :: "env \<Rightarrow> jsval \<Rightarrow> System \<Rightarrow> System" where
  "handleMailMessage e message s =
     (if getProp message ''type'' = JStr ''mail'' \<and> truthy (getProp message ''mail'')
      then emitMail (getProp message ''mail'') s
      else if getProp message ''type'' = JStr ''mail_notification''
      then emitMail
             (JObj [(''message_id'', getProp message ''message_id''),
                    (''from_address'', getProp message ''from''),
                    (''to_address'', getProp message ''to''),
                    (''subject'', getProp message ''subject''),
                    (''body'', getProp message ''body''),
                    (''timestamp'', if truthy (getProp message ''timestamp'')
                                    then getProp message ''timestamp'' else JStr (iso e)),
                    (''in_reply_to'', getProp message ''in_reply_to''),
                    (''headers'', JObj [])])
             s
      else if getProp message ''type'' = JStr ''identity_confirmed''
      then
        (let s1 = (if truthy (getProp message ''email_address'')
                   then s\<lparr> userEmail := getProp message ''email_address'',
                           defaultFrom := getProp message ''email_address'' \<rparr>
                   else s)
         in if truthy (getProp message ''ui_agent_email'')
            then s1\<lparr> uiAgentEmail := getProp message ''ui_agent_email'' \<rparr>
            else s1)
      else s)"

definition sendIdentity :: "env \<Rightarrow> System \<Rightarrow> System" where
  "sendIdentity e s =
     (let message = JObj [(''type'', JStr ''set_identity''),
                          (''email_address'',
                             if truthy (userEmail s) then userEmail s else JStr [])]
      in case ws s of
           None \<Rightarrow> logError ''WebSocket not available or not open'' s
         | Some k \<Rightarrow>
             if isOpen s k
             then (case ws_send e k message s of
                     Inr s' \<Rightarrow> s'
                   | Inl err \<Rightarrow> logError ''Error in event listener'' s)
             else logError ''WebSocket not available or not open'' s)"

subsection \<open>BaseTransport\<close>

text \<open>
  \<open>emit\<close> records the event and runs the two listeners that the adapter's constructor
  registers: \<open>handleMailMessage\<close> on a message and \<open>sendIdentity\<close> on a connect.
\<close>

definition emit :: "env \<Rightarrow> TransportEvent \<Rightarrow> System \<Rightarrow> System" where
  "emit e ev s =
     (let s1 = s\<lparr> emitted := emitted s @ [ev] \<rparr>
      in case ev of
           EV_MESSAGE message \<Rightarrow> handleMailMessage e message s1
         | EV_CONNECTED \<Rightarrow> sendIdentity e s1
         | _ \<Rightarrow> s1)"

definition setState :: "env \<Rightarrow> TransportState \<Rightarrow> System \<Rightarrow> System" where
  "setState e st s =
     (let oldState = state s;
          s1 = s\<lparr> state := st \<rparr>
      in if oldState \<noteq> st
         then (let s2 = emit e (STATE_CHANGE oldState st) s1
               in if st = CONNECTED then emit e EV_CONNECTED s2
                  else if st = DISCONNECTED then emit e EV_DISCONNECTED s2
                  else s2)
         else s1)"

definition isConnected :: "System \<Rightarrow> bool" where
  "isConnected s = (state s = CONNECTED)"

subsection \<open>WebSocketTransport\<close>

definition clearTimers :: "System \<Rightarrow> System" where
  "clearTimers s =
     (let s1 = (case reconnectTimer s of
                  None \<Rightarrow> s
                | Some n \<Rightarrow> (clearTimer (ReconnectTimer n) s)\<lparr> reconnectTimer := None \<rparr>)
      in case heartbeatTimer s1 of
           None \<Rightarrow> s1
         | Some n \<Rightarrow> (clearTimer (HeartbeatTimer n) s1)\<lparr> heartbeatTimer := None \<rparr>)"

definition startHeartbeat :: "env \<Rightarrow> System \<Rightarrow> System" where
  "startHeartbeat e s =
     (let interval = orElse (heartbeatInterval (config s)) 30000;
          n = fresh s
      in (setTimer (HeartbeatTimer n) (now e + interval) s)
           \<lparr> heartbeatTimer := Some n, fresh := n + 1 \<rparr>)"

text \<open>
  The loop that cancels the pending requests: each entry's timer is cleared and its promise
  rejected, then the table is emptied.
\<close>

definition rejectAllPending :: "error \<Rightarrow> System \<Rightarrow> System" where
  "rejectAllPending m s =
     (fold (\<lambda>(k, p) s'. settle p (Rejected m) (clearTimer (RequestTimer p k) s'))
           (pendingRequests s) s)
       \<lparr> pendingRequests := [] \<rparr>"

definition scheduleReconnect :: "env \<Rightarrow> System \<Rightarrow> System" where
  "scheduleReconnect e s =
     (if reconnectAttempts s \<ge> orElse (maxReconnectAttempts (config s)) 5
      then setState e ERROR (logError ''Max reconnection attempts reached'' s)
      else
        (let delay = orElse (reconnectInterval (config s)) 5000;
             n = fresh s
         in (setTimer (ReconnectTimer n) (now e + delay) s)
              \<lparr> reconnectAttempts := reconnectAttempts s + 1,
                reconnectTimer := Some n, fresh := n + 1 \<rparr>))"

definition handleDisconnect :: "env \<Rightarrow> System \<Rightarrow> System" where
  "handleDisconnect e s =
     (let s1 = clearTimers s;
          wasConnected = (state s1 = CONNECTED);
          s2 = setState e DISCONNECTED s1;
          s3 = rejectAllPending ''Connection lost'' s2
      in if wasConnected \<and> reconnect (config s3) then scheduleReconnect e s3 else s3)"

text \<open>
  The promise of \<open>createConnection\<close> for a socket is rejected.  Its \<open>catch\<close> block in \<open>connect\<close>
  sets the state to \<open>ERROR\<close> and rethrows; when the reconnect timer made the call, the
  rejection is caught there, logged, and followed by \<open>handleDisconnect\<close>.
\<close>

definition connectFailed :: "env \<Rightarrow> caller \<Rightarrow> error \<Rightarrow> System \<Rightarrow> System" where
  "connectFailed e who m s =
     (let s1 = setState e ERROR s;
          s2 = s1\<lparr> connectLog := connectLog s1 @ [(who, Some m)] \<rparr>
      in case who of
           Explicit \<Rightarrow> s2
         | Reconnect \<Rightarrow> handleDisconnect e (logError ''Reconnection failed:'' s2))"

definition rejectConnect :: "env \<Rightarrow> nat \<Rightarrow> error \<Rightarrow> System \<Rightarrow> System" where
  "rejectConnect e k m s =
     (case socketAt s k of
        None \<Rightarrow> s
      | Some sock \<Rightarrow>
          if awaited sock
          then connectFailed e (origin sock) m
                 (s\<lparr> sockets := (sockets s)[k := sock\<lparr> awaited := False \<rparr>] \<rparr>)
          else s)"

definition resolveConnect :: "nat \<Rightarrow> System \<Rightarrow> System" where
  "resolveConnect k s =
     (case socketAt s k of
        None \<Rightarrow> s
      | Some sock \<Rightarrow>
          if awaited sock
          then s\<lparr> sockets := (sockets s)[k := sock\<lparr> awaited := False \<rparr>],
                  connectLog := connectLog s @ [(origin sock, None)] \<rparr>
          else s)"

definition createConnection :: "env \<Rightarrow> caller \<Rightarrow> System \<Rightarrow> System" where
  "createConnection e who s =
     (if ctorOk e
      then
        (let k = length (sockets s);
             s1 = s\<lparr> ws := Some k,
                     sockets := sockets s @ [\<lparr> readyState = 0, listening = True,
                                                awaited = True, origin = who \<rparr>] \<rparr>
         in setTimer (ConnectTimer k) (now e + orElse (timeout (config s)) 30000) s1)
      else connectFailed e who ''WebSocket constructor failed'' s)"

definition connect :: "env \<Rightarrow> caller \<Rightarrow> System \<Rightarrow> System" where
  "connect e who s =
     (if state s = CONNECTED \<or> state s = CONNECTING then s
      else createConnection e who ((setState e CONNECTING s)\<lparr> reconnectAttempts := 0 \<rparr>))"

definition disconnect :: "env \<Rightarrow> System \<Rightarrow> System" where
  "disconnect e s =
     (if state s = DISCONNECTED then s
      else
        (let s1 = setState e DISCONNECTING s;
             s2 = clearTimers s1;
             s3 = rejectAllPending ''Transport disconnected'' s2;
             s4 = (case ws s3 of
                     None \<Rightarrow> s3
                   | Some k \<Rightarrow>
                       (let s5 = (if \<not> browser (config s3)
                                  then (case socketAt s3 k of
                                          None \<Rightarrow> s3
                                        | Some sock \<Rightarrow>
                                            s3\<lparr> sockets :=
                                                  (sockets s3)[k := sock\<lparr> listening := False \<rparr>] \<rparr>)
                                  else s3);
                            s6 = (if isOpen s5 k then ws_close k s5 else s5)
                        in s6\<lparr> ws := None \<rparr>))
         in setState e DISCONNECTED s4))"

text \<open>
  \<open>send\<close>.  The call takes the next number \<open>p\<close>, which names its promise and its timer.
\<close>

definition send :: "env \<Rightarrow> TransportMessage \<Rightarrow> System \<Rightarrow> System" where
  "send e message s0 =
     (let p = fresh s0;
          s = s0\<lparr> fresh := p + 1 \<rparr>
      in if \<not> isConnected s then settle p (Rejected ''Transport not connected'') s
         else
           (let messageId = (if msg_id message \<noteq> [] then msg_id message else genId e);
                limit = orElse (timeout (config s)) 30000;
                s1 = (setTimer (RequestTimer p messageId) (now e + limit) s)
                       \<lparr> pendingRequests := AList.update messageId p (pendingRequests s) \<rparr>;
                outgoingMessage =
                  json_obj [(''id'', JStr messageId), (''type'', JStr (msg_type message)),
                            (''payload'', msg_payload message),
                            (''metadata'', msg_metadata message),
                            (''timestamp'', JStr (iso e))]
            in case (case ws s1 of
                       None \<Rightarrow> Inl ''TypeError''
                     | Some k \<Rightarrow> ws_send e k outgoingMessage s1) of
                 Inr s2 \<Rightarrow> s2
               | Inl err \<Rightarrow>
                   settle p (Rejected err)
                     (clearTimer (RequestTimer p messageId)
                        (s1\<lparr> pendingRequests := AList.delete messageId (pendingRequests s1) \<rparr>))))"

definition requestTimedOut :: "nat \<Rightarrow> string \<Rightarrow> System \<Rightarrow> System" where
  "requestTimedOut p messageId s =
     settle p (Rejected (''Request '' @ messageId @ '' timed out''))
       (s\<lparr> pendingRequests := AList.delete messageId (pendingRequests s) \<rparr>)"

definition handleMessage :: "env \<Rightarrow> inbound \<Rightarrow> System \<Rightarrow> System" where
  "handleMessage e data s =
     (case data of
        Unparsable \<Rightarrow> logError ''Failed to parse message:'' s
      | Parsed message \<Rightarrow>
          if message = JNull then logError ''Failed to parse message:'' s
          else
            (case (if truthy (getProp message ''id'')
                   then (case getProp message ''id'' of
                           JStr k \<Rightarrow> map_option (\<lambda>p. (k, p)) (map_of (pendingRequests s) k)
                         | _ \<Rightarrow> None)
                   else None) of
               Some (k, p) \<Rightarrow>
                 (let s1 = s\<lparr> pendingRequests := AList.delete k (pendingRequests s) \<rparr>;
                      s2 = clearTimer (RequestTimer p k) s1;
                      response = \<lparr> resp_id = getProp message ''id'',
                                   success = (getProp message ''success'' \<noteq> JBool False),
                                   resp_payload = (if truthy (getProp message ''payload'')
                                                   then getProp message ''payload'' else message),
                                   resp_error = getProp message ''error'',
                                   resp_metadata = getProp message ''metadata'' \<rparr>
                  in settle p (Resolved response) s2)
             | None \<Rightarrow> emit e (EV_MESSAGE message) s))"

subsection \<open>MailTransportAdapter: sending\<close>

definition mailFrame :: "env \<Rightarrow> Mail \<Rightarrow> jsval" where
  "mailFrame e mail =
     JObj [(''type'', JStr ''mail''),
           (''mail'',
              JObj [(''headers'',
                       json_obj [(''To'', JStr (to_address mail)),
                                 (''From'', from_address mail),
                                 (''Subject'', JStr (subject mail)),
                                 (''Message-ID'',
                                    JStr (if message_id mail \<noteq> [] then message_id mail
                                          else genId e))]),
                    (''body'', JStr (body mail))])]"

text \<open>\<open>sendMail\<close> returns the error it throws, or nothing when it returns the mail.\<close>

definition sendMail :: "env \<Rightarrow> Mail \<Rightarrow> System \<Rightarrow> error option \<times> System" where
  "sendMail e mail s =
     (case ws s of
        None \<Rightarrow> (Some ''WebSocket not connected'', s)
      | Some k \<Rightarrow>
          if isOpen s k
          then (case ws_send e k (mailFrame e mail) s of
                  Inr s' \<Rightarrow> (None, s')
                | Inl err \<Rightarrow> (Some err, s))
          else (Some ''WebSocket not connected'', s))"

text \<open>
  \<open>sendMailTo\<close>.  With a timeout it races \<open>sendMail\<close>, which settles at once, against a timer
  whose firing therefore has no effect.
\<close>

definition sendMailTo ::
  "env \<Rightarrow> string \<Rightarrow> string \<Rightarrow> string \<Rightarrow> MailOptions \<Rightarrow> System \<Rightarrow> error option \<times> System" where
  "sendMailTo e to subj bdy options s =
     (let mail = \<lparr> message_id = genId e, from_address = defaultFrom s, to_address = to,
                    subject = subj, body = bdy, timestamp = iso e,
                    headers = (case opt_headers options of None \<Rightarrow> [] | Some h \<Rightarrow> h),
                    in_reply_to = (case opt_inReplyTo options of
                                     None \<Rightarrow> None
                                   | Some r \<Rightarrow> if r = [] then None else Some r) \<rparr>
      in if opt_timeout options \<noteq> 0
         then (let n = fresh s
               in sendMail e mail
                    ((setTimer (MailDeadline n) (now e + opt_timeout options) s)
                       \<lparr> fresh := n + 1 \<rparr>))
         else sendMail e mail s)"

definition onMail :: "System \<Rightarrow> System" where
  "onMail s =
     (let n = fresh s
      in s\<lparr> mailHandlers := mailHandlers s @ [Subscriber n], fresh := n + 1 \<rparr>)"

definition offMail :: "nat \<Rightarrow> System \<Rightarrow> System" where
  "offMail n s = s\<lparr> mailHandlers := removeAll (Subscriber n) (mailHandlers s) \<rparr>"

subsection \<open>ServiceBase.sendAndWait\<close>

text \<open>
  The call takes the next number \<open>w\<close> for its response promise, timer and mail handler, sends
  the mail, and returns the response promise; when sending throws, the call rejects with that
  error instead.
\<close>

definition sendAndWait ::
  "env \<Rightarrow> string \<Rightarrow> string \<Rightarrow> string \<Rightarrow> WaitOptions \<Rightarrow> System \<Rightarrow> System" where
  "sendAndWait e to subj bdy options s =
     (let limit = orElse (wopt_timeout options) (defaultTimeout s);
          messageId = genMessageId e;
          w = fresh s;
          expected = (case wopt_expectSubject options of
                        None \<Rightarrow> Literal subj
                      | Some (Literal x) \<Rightarrow> if x = [] then Literal subj else Literal x
                      | Some (Pattern r) \<Rightarrow> Pattern r);
          s1 = (setTimer (WaitTimer w) (now e + limit) s)
                 \<lparr> waits := AList.update w \<lparr> w_messageId = messageId, w_expected = expected,
                                              w_subject = subj, w_following = False \<rparr> (waits s),
                   mailHandlers := mailHandlers s @ [WaitHandler w],
                   fresh := w + 1 \<rparr>;
          mailOptions = \<lparr> opt_inReplyTo = (case wopt_inReplyTo options of
                                             None \<Rightarrow> None
                                           | Some r \<Rightarrow> if r = [] then None else Some r),
                          opt_timeout = limit,
                          opt_headers = Some (AList.update ''Message-ID'' messageId
                                               (case wopt_headers options of
                                                  None \<Rightarrow> [] | Some h \<Rightarrow> h)) \<rparr>
      in case sendMailTo e to subj bdy mailOptions s1 of
           (None, s2) \<Rightarrow>
             s2\<lparr> waits := map (\<lambda>(n, wt). if n = w then (n, wt\<lparr> w_following := True \<rparr>)
                                          else (n, wt)) (waits s2) \<rparr>
         | (Some err, s2) \<Rightarrow> s2\<lparr> waitSettled := waitSettled s2 @ [(w, Rejected err)] \<rparr>)"

definition waitTimedOut :: "nat \<Rightarrow> System \<Rightarrow> System" where
  "waitTimedOut w s =
     (case map_of (waits s) w of
        None \<Rightarrow> s
      | Some wt \<Rightarrow>
          settleWait w (Rejected (''Request timeout: '' @ w_subject wt)) (cleanup w s))"

subsection \<open>Callbacks of the event loop\<close>

definition onOpen :: "env \<Rightarrow> nat \<Rightarrow> System \<Rightarrow> System" where
  "onOpen e k s =
     (let s1 = clearTimer (ConnectTimer k) (setReadyState k 1 s);
          s2 = setState e CONNECTED s1;
          s3 = s2\<lparr> reconnectAttempts := 0 \<rparr>;
          s4 = startHeartbeat e s3;
          s5 = emit e EV_CONNECTED s4
      in resolveConnect k s5)"

definition onClose :: "env \<Rightarrow> nat \<Rightarrow> System \<Rightarrow> System" where
  "onClose e k s = handleDisconnect e (clearTimer (ConnectTimer k) (setReadyState k 3 s))"

text \<open>
  The \<open>error\<close> listener of a socket.  While the transport is connecting it rejects the promise
  of \<open>createConnection\<close>, in a browser with a new error and under \<open>ws\<close> with the error of the
  socket.  The rejection is a promise reaction: the \<open>catch\<close> block of \<open>connect\<close> runs once the
  listeners of the current turn have returned.  The listener yields the error of the rejection
  that it has requested, if any.
\<close>

definition errorListener :: "env \<Rightarrow> nat \<Rightarrow> System \<Rightarrow> System \<times> error option" where
  "errorListener e k s =
     (let s1 = clearTimer (ConnectTimer k) s;
          s2 = logError ''WebSocket error:'' s1;
          s3 = emit e EV_ERROR s2
      in (s3, if state s3 = CONNECTING
              then Some (if browser (config s3) then ''WebSocket connection failed''
                         else socketError e)
              else None))"

text \<open>An \<open>error\<close> event in a turn of its own: the reaction follows the listener.\<close>

definition onError :: "env \<Rightarrow> nat \<Rightarrow> System \<Rightarrow> System" where
  "onError e k s =
     (case errorListener e k s of
        (s1, None) \<Rightarrow> s1
      | (s1, Some m) \<Rightarrow> rejectConnect e k m s1)"

text \<open>
  A socket that fails reports \<open>error\<close> and then \<open>close\<close>.  A browser runs the promise reactions
  after each listener, so that the \<open>catch\<close> block of \<open>connect\<close> runs between the two.  The \<open>ws\<close>
  library emits both events from one call, so that both listeners have returned when the
  \<open>catch\<close> block runs.
\<close>

definition onErrorClose :: "env \<Rightarrow> nat \<Rightarrow> System \<Rightarrow> System" where
  "onErrorClose e k s =
     (if browser (config s) then onClose e k (onError e k s)
      else
        (case errorListener e k s of
           (s1, None) \<Rightarrow> onClose e k s1
         | (s1, Some m) \<Rightarrow> rejectConnect e k m (onClose e k s1)))"

definition onConnectTimeout :: "env \<Rightarrow> nat \<Rightarrow> System \<Rightarrow> System" where
  "onConnectTimeout e k s =
     (let s1 = (case ws s of None \<Rightarrow> s | Some j \<Rightarrow> ws_close j s)
      in rejectConnect e k ''Connection timeout'' s1)"

definition onHeartbeat :: "env \<Rightarrow> nat \<Rightarrow> System \<Rightarrow> System" where
  "onHeartbeat e n s =
     (let s1 = setTimer (HeartbeatTimer n)
                 (now e + orElse (heartbeatInterval (config s)) 30000) s
      in case ws s1 of
           None \<Rightarrow> s1
         | Some k \<Rightarrow>
             if isOpen s1 k
             then (if browser (config s1)
                   then (case ws_send e k (JObj [(''type'', JStr ''heartbeat''),
                                                (''timestamp'', JNum (now e))]) s1 of
                           Inr s2 \<Rightarrow> s2
                         | Inl err \<Rightarrow> s1)
                   else s1\<lparr> wire := wire s1 @ [(k, Ping)] \<rparr>)
             else s1)"

text \<open>
  A timer fires only while it is armed and not before its deadline.  A timeout is disarmed
  by firing; the heartbeat interval arms itself again.
\<close>

definition fire :: "env \<Rightarrow> timer \<Rightarrow> System \<Rightarrow> System" where
  "fire e t s =
     (case map_of (timers s) t of
        None \<Rightarrow> s
      | Some deadline \<Rightarrow>
          if now e < deadline then s
          else
            (let s1 = clearTimer t s
             in case t of
                  RequestTimer p messageId \<Rightarrow> requestTimedOut p messageId s1
                | ConnectTimer k \<Rightarrow> onConnectTimeout e k s1
                | ReconnectTimer n \<Rightarrow> connect e Reconnect s1
                | HeartbeatTimer n \<Rightarrow> onHeartbeat e n s1
                | WaitTimer w \<Rightarrow> waitTimedOut w s1
                | MailDeadline n \<Rightarrow> s1))"

text \<open>
  The calls from outside and the callbacks of the event loop.  A socket delivers an event
  only while the listeners of its \<open>createConnection\<close> are attached.
\<close>

datatype input =
    Connect
  | Disconnect
  | Send TransportMessage
  | SendMail Mail
  | SendMailTo string string string MailOptions
  | SendAndWait string string string WaitOptions
  | OnMail
  | OffMail nat
  | SockOpen nat
  | SockClose nat
  | SockError nat
  | SockErrorClose nat
  | SockMessage nat inbound
  | Fire timer

definition hears :: "System \<Rightarrow> nat \<Rightarrow> bool" where
  "hears s k = (case socketAt s k of None \<Rightarrow> False | Some sock \<Rightarrow> listening sock)"

fun step :: "env \<Rightarrow> input \<Rightarrow> System \<Rightarrow> System" where
  "step e Connect s = connect e Explicit s"
| "step e Disconnect s = disconnect e s"
| "step e (Send message) s = send e message s"
| "step e (SendMail mail) s = snd (sendMail e mail s)"
| "step e (SendMailTo to subj bdy options) s = snd (sendMailTo e to subj bdy options s)"
| "step e (SendAndWait to subj bdy options) s = sendAndWait e to subj bdy options s"
| "step e OnMail s = onMail s"
| "step e (OffMail n) s = offMail n s"
| "step e (SockOpen k) s = (if hears s k then onOpen e k s else s)"
| "step e (SockClose k) s = (if hears s k then onClose e k s else s)"
| "step e (SockError k) s = (if hears s k then onError e k s else s)"
| "step e (SockErrorClose k) s = (if hears s k then onErrorClose e k s else s)"
| "step e (SockMessage k data) s = (if hears s k then handleMessage e data s else s)"
| "step e (Fire t) s = fire e t s"

fun run :: "(env \<times> input) list \<Rightarrow> System \<Rightarrow> System" where
  "run [] s = s"
| "run ((e, i) # rest) s = run rest (step e i s)"

text \<open>The state changes that have been announced, oldest first.\<close>

fun transitions :: "TransportEvent list \<Rightarrow> (TransportState \<times> TransportState) list" where
  "transitions [] = []"
| "transitions (STATE_CHANGE a b # evs) = (a, b) # transitions evs"
| "transitions (ev # evs) = transitions evs"

section \<open>Lifecycle of the connection state\<close>

text \<open>
  The moves of the connection state: \<open>connect\<close> enters \<open>CONNECTING\<close> from \<open>DISCONNECTED\<close> or
  \<open>ERROR\<close> (it returns early in the other states); the socket's \<open>open\<close> enters \<open>CONNECTED\<close>
  from \<open>CONNECTING\<close>; \<open>disconnect\<close> enters \<open>DISCONNECTING\<close> from any state but \<open>DISCONNECTED\<close>
  and leaves it for \<open>DISCONNECTED\<close>; \<open>handleDisconnect\<close> enters \<open>DISCONNECTED\<close> from the state
  it finds; a rejected connection attempt enters \<open>ERROR\<close> from \<open>CONNECTING\<close>.
\<close>

definition allowedMove :: "TransportState \<Rightarrow> TransportState \<Rightarrow> bool" where
  "allowedMove a b =
     (case b of
        CONNECTING \<Rightarrow> a = DISCONNECTED \<or> a = ERROR
      | CONNECTED \<Rightarrow> a = CONNECTING
      | DISCONNECTING \<Rightarrow> a = CONNECTING \<or> a = CONNECTED \<or> a = ERROR
      | DISCONNECTED \<Rightarrow> a \<noteq> DISCONNECTED
      | ERROR \<Rightarrow> a = CONNECTING)"

text \<open>
  An event is timely when it finds the transport in the state that its listener was written
  for: a socket opens, and the timeout of a connection attempt fires, while the transport is
  connecting; and the \<open>ws\<close> library does not emit \<open>error\<close> and \<open>close\<close> in one turn while the
  transport is connecting.  A run is orderly when each of its events is timely in the state
  that it meets.
\<close>

definition timely :: "input \<Rightarrow> System \<Rightarrow> bool" where
  "timely i s =
     (case i of
        SockOpen k \<Rightarrow> state s = CONNECTING
      | SockErrorClose k \<Rightarrow> browser (config s) \<or> state s \<noteq> CONNECTING
      | Fire t \<Rightarrow> (case t of ConnectTimer k \<Rightarrow> state s = CONNECTING | _ \<Rightarrow> True)
      | _ \<Rightarrow> True)"

fun orderly :: "(env \<times> input) list \<Rightarrow> System \<Rightarrow> bool" where
  "orderly [] s = True"
| "orderly ((e, i) # rest) s = (timely i s \<and> orderly rest (step e i s))"

text \<open>
  \<open>follows a moves\<close> walks the announced moves from \<open>a\<close>: every move starts where the one
  before ended and is an allowed move; the result is the state reached.
\<close>

fun follows :: "TransportState \<Rightarrow> (TransportState \<times> TransportState) list \<Rightarrow> TransportState option" where
  "follows a [] = Some a"
| "follows a ((x, y) # rest) = (if x = a \<and> allowedMove x y then follows y rest else None)"

definition walk :: "System \<Rightarrow> bool" where
  "walk s \<longleftrightarrow> follows DISCONNECTED (transitions (emitted s)) = Some (state s)"

text \<open>Whether \<open>scheduleReconnect\<close> has given up, which it logs.\<close>

definition gaveUp :: "System \<Rightarrow> bool" where
  "gaveUp s \<longleftrightarrow> ''Max reconnection attempts reached'' \<in> set (errorLog s)"

text \<open>The part of the system that the lifecycle properties read.\<close>

definition view ::
  "System \<Rightarrow> TransportState \<times> (TransportState \<times> TransportState) list \<times> int
     \<times> TransportConfig \<times> bool" where
  "view s = (state s, transitions (emitted s), reconnectAttempts s, config s, gaveUp s)"

definition good :: "System \<Rightarrow> bool" where
  "good s \<longleftrightarrow> walk s \<and> state s \<noteq> DISCONNECTING"

text \<open>
  While connected the attempt counter is 0, and \<open>scheduleReconnect\<close> has not given up, when
  the configured maximum is positive.
\<close>

definition calm :: "System \<Rightarrow> bool" where
  "calm s \<longleftrightarrow>
     (state s = CONNECTED \<longrightarrow> reconnectAttempts s = 0) \<and> \<not> gaveUp s
     \<and> 0 < orElse (maxReconnectAttempts (config s)) 5"

text \<open>
  A concrete environment and configuration (\<open>maxReconnectAttempts = 10\<close>, reconnection
  enabled, browser sockets), the system after \<open>connect\<close> and the socket's \<open>open\<close>, and \<open>n\<close> rounds
  of an unexpected close, the reconnect timer firing, and the new socket opening.
\<close>

definition env0 :: "int \<Rightarrow> env" where
  "env0 t = \<lparr> now = t, iso = ''iso'', genId = ''gen'', genMessageId = ''<m@x>'',
              ctorOk = True, sendOk = True, socketError = ''ECONNREFUSED'' \<rparr>"

definition userConfig10 :: UserConfig where
  "userConfig10 = \<lparr> user_timeout = None, user_reconnect = None, user_reconnectInterval = None,
      user_maxReconnectAttempts = Some 10, user_heartbeatInterval = None,
      user_defaultFrom = None, user_serviceTimeout = None \<rparr>"

definition connected0 :: System where
  "connected0 = run [(env0 0, Connect), (env0 10, SockOpen 0)] (newSystem userConfig10 True)"

fun cycles :: "nat \<Rightarrow> nat \<Rightarrow> (env \<times> input) list" where
  "cycles j 0 = []"
| "cycles j (Suc n) =
     [(env0 (int j * 10000), SockClose j),
      (env0 (int j * 10000 + 5000), Fire (ReconnectTimer (2 * j + 1))),
      (env0 (int j * 10000 + 5100), SockOpen (j + 1))] @ cycles (j + 1) n"

section \<open>Pending requests\<close>

text \<open>
  The timers that are armed, and among them the request timers, as pairs of the number of the
  \<open>send\<close> call and its message id.
\<close>

definition armed :: "System \<Rightarrow> timer set" where
  "armed s = fst ` set (timers s)"

definition reqArmed :: "System \<Rightarrow> (nat \<times> string) set" where
  "reqArmed s = {(p, k). RequestTimer p k \<in> armed s}"

text \<open>
  The part of the system that concerns request promises, and the relation between two states
  that agree on it (the counter of fresh numbers may only grow).
\<close>

definition rview ::
  "System \<Rightarrow> (nat \<times> TransportResponse outcome) list \<times> (nat \<times> string) set \<times> (string \<times> nat) list" where
  "rview s = (settled s, reqArmed s, pendingRequests s)"

definition quiet :: "System \<Rightarrow> System \<Rightarrow> bool" where
  "quiet s s' \<longleftrightarrow> rview s' = rview s \<and> fresh s \<le> fresh s'"

text \<open>
  What every transition maintains: no promise is settled twice; a settled promise is below the
  counter and has no timer armed; the timer of every entry of the pending table is armed;
  armed request timers are below the counter and there is one per call; no two entries of the
  table belong to the same call.
\<close>

definition once :: "System \<Rightarrow> bool" where
  "once s \<longleftrightarrow>
     distinct (map fst (settled s))
     \<and> (\<forall>p \<in> fst ` set (settled s). p < fresh s \<and> (\<forall>k. (p, k) \<notin> reqArmed s))
     \<and> (\<forall>(k, p) \<in> set (pendingRequests s). (p, k) \<in> reqArmed s)
     \<and> (\<forall>(p, k) \<in> reqArmed s. p < fresh s)
     \<and> (\<forall>p k k'. (p, k) \<in> reqArmed s \<and> (p, k') \<in> reqArmed s \<longrightarrow> k = k')
     \<and> distinct (map snd (pendingRequests s))"

text \<open>The deadline of the timer of call \<open>p\<close> for message id \<open>k\<close>, while it is armed.\<close>

definition deadlines :: "System \<Rightarrow> nat \<Rightarrow> string \<Rightarrow> int option" where
  "deadlines s = (\<lambda>p k. map_of (timers s) (RequestTimer p k))"

text \<open>
  The table of pending requests is keyed by message id.  An event leaves the request with id
  \<open>k\<close> alone when it is not a \<open>send\<close> with the same id, not a frame with that id, not the timer
  of a request with that id, and not an event of the connection itself (\<open>connect\<close>,
  \<open>disconnect\<close>, a socket's \<open>open\<close>, \<open>close\<close> or \<open>error\<close>, the connection timeout, the reconnect
  timer).
\<close>

definition undisturbed :: "string \<Rightarrow> env \<Rightarrow> input \<Rightarrow> bool" where
  "undisturbed k e i =
     (case i of
        Send m \<Rightarrow> (if msg_id m \<noteq> [] then msg_id m else genId e) \<noteq> k
      | SendMail mail \<Rightarrow> True
      | SendMailTo to subj bdy opts \<Rightarrow> True
      | SendAndWait to subj bdy opts \<Rightarrow> True
      | OnMail \<Rightarrow> True
      | OffMail n \<Rightarrow> True
      | SockMessage j d \<Rightarrow>
          (case d of Unparsable \<Rightarrow> True | Parsed frame \<Rightarrow> getProp frame ''id'' \<noteq> JStr k)
      | Fire t \<Rightarrow>
          (case t of
             RequestTimer p k' \<Rightarrow> k' \<noteq> k
           | HeartbeatTimer n \<Rightarrow> True
           | WaitTimer w \<Rightarrow> True
           | MailDeadline n \<Rightarrow> True
           | _ \<Rightarrow> False)
      | _ \<Rightarrow> False)"

text \<open>
  Two states agree on the request with id \<open>k\<close>; and the request of call \<open>p\<close> holds the table
  entry of \<open>k\<close> with its timer armed at \<open>t\<close>, no other request with that id being in flight.
\<close>

definition keeps :: "string \<Rightarrow> System \<Rightarrow> System \<Rightarrow> bool" where
  "keeps k s s' \<longleftrightarrow>
     map_of (pendingRequests s') k = map_of (pendingRequests s) k
     \<and> (\<forall>p. deadlines s' p k = deadlines s p k)"

definition held :: "string \<Rightarrow> nat \<Rightarrow> int \<Rightarrow> System \<Rightarrow> bool" where
  "held k p t s \<longleftrightarrow>
     once s \<and> map_of (pendingRequests s) k = Some p
     \<and> (\<forall>p'. deadlines s p' k = (if p' = p then Some t else None))"

text \<open>
  A request with id \<open>r1\<close>, sent at time 100 on the connected system, and events that leave it
  alone: another request and its response, a mail frame, a subscription.
\<close>

definition request1 :: TransportMessage where
  "request1 = \<lparr> msg_id = ''r1'', msg_type = ''query'', msg_payload = JNull,
                 msg_metadata = JUndef \<rparr>"

definition sent1 :: System where
  "sent1 = run [(env0 100, Send request1)] connected0"

definition request2 :: TransportMessage where
  "request2 = \<lparr> msg_id = ''r2'', msg_type = ''query'', msg_payload = JNull,
                 msg_metadata = JUndef \<rparr>"

definition others1 :: "(env \<times> input) list" where
  "others1 = [(env0 150, Send request2),
              (env0 200, SockMessage 0 (Parsed (JObj [(''id'', JStr ''r2'')]))),
              (env0 250, SockMessage 0 (Parsed (JObj [(''type'', JStr ''mail'')]))),
              (env0 300, OnMail)]"


section \<open>Reply-waits of ServiceBase\<close>

text \<open>
  What is observable of the reply-waits: the settlements of their promises, the registered
  mail handlers, the table of waits, and the deadline of every wait timer.
\<close>

definition wview ::
  "System \<Rightarrow> (nat \<times> jsval outcome) list \<times> mail_handler list \<times> (nat \<times> Wait) list
     \<times> (nat \<Rightarrow> int option)" where
  "wview s = (waitSettled s, mailHandlers s, waits s, (\<lambda>w. map_of (timers s) (WaitTimer w)))"

text \<open>A request for the project list, sent at time 100 on the connected system.\<close>

definition waitOptions1 :: WaitOptions where
  "waitOptions1 = \<lparr> wopt_timeout = 0, wopt_inReplyTo = None, wopt_headers = None,
                     wopt_expectSubject = Some (Literal ''Project List'') \<rparr>"

definition waiting1 :: System where
  "waiting1 = run [(env0 100, SendAndWait ''server@x'' ''List Projects'' ''{}'' waitOptions1)]
                connected0"
section \<open>Properties of MailQueue\<close>

lemma addDebugLog_queue [simp]: "queue (addDebugLog t m s) = queue s"
  by (simp add: addDebugLog_def Let_def)

lemma addDebugLog_recentHashes [simp]: "recentHashes (addDebugLog t m s) = recentHashes s"
  by (simp add: addDebugLog_def Let_def)

lemma addDebugLog_dedupeWindowMs [simp]: "dedupeWindowMs (addDebugLog t m s) = dedupeWindowMs s"
  by (simp add: addDebugLog_def Let_def)

lemma addDebugLog_maxAttempts [simp]: "maxAttempts (addDebugLog t m s) = maxAttempts s"
  by (simp add: addDebugLog_def Let_def)

lemma enq_dedupeWindowMs [simp]: "dedupeWindowMs (snd (enq c s)) = dedupeWindowMs s"
  by (simp add: enq_def enqueueWithId_def Let_def split: option.splits)

lemma run_enq_dedupeWindowMs [simp]: "dedupeWindowMs (run_enq cs s) = dedupeWindowMs s"
  by (induction cs arbitrary: s) simp_all

lemma digest_input_hash: "digest_input c = digest_input d \<Longrightarrow> call_hash c = call_hash d"
  by (simp add: digest_input_def call_hash_def generateHash_def)

lemma enq_accept_iff:
  "fst (enq c s) \<longleftrightarrow>
     (case map_of (recentHashes s) (call_hash c) of None \<Rightarrow> True
      | Some seen \<Rightarrow> seen = 0 \<or> dedupeWindowMs s \<le> call_now c - seen)"
  by (auto simp: enq_def enqueueWithId_def call_hash_def Let_def split: option.splits)

lemma enq_rejected_state:
  "\<not> fst (enq c s) \<Longrightarrow>
     queue (snd (enq c s)) = queue s \<and> recentHashes (snd (enq c s)) = recentHashes s"
  by (auto simp: enq_def enqueueWithId_def Let_def split: option.splits if_splits)

lemma enq_accepted_state:
  "fst (enq c s) \<Longrightarrow>
     queue (snd (enq c s)) = queue s @
        [\<lparr> qm_id = call_id c, qm_to = call_to c, qm_subject = call_subject c,
            qm_body = call_body c, qm_timestamp = call_now c, qm_attempts = 0,
            qm_hash = call_hash c, qm_headers = call_headers c \<rparr>]
     \<and> recentHashes (snd (enq c s)) = AList.update (call_hash c) (call_now c) (recentHashes s)"
  by (auto simp: enq_def enqueueWithId_def call_hash_def Let_def split: option.splits if_splits)

lemma enq_stored:
  "map_of (recentHashes (snd (enq c s))) h =
     (if fst (enq c s) \<and> call_hash c = h then Some (call_now c) else map_of (recentHashes s) h)"
proof (cases "fst (enq c s)")
  case True
  then show ?thesis using enq_accepted_state [OF True] by (simp add: update_conv')
next
  case False
  then show ?thesis using enq_rejected_state [OF False] by simp
qed

lemma run_enq_stored:
  "map_of (recentHashes (run_enq cs s)) h = last_accepted h cs s"
proof (induction cs arbitrary: s)
  case Nil
  then show ?case by (simp add: last_accepted_def)
next
  case (Cons c cs)
  show ?case
    using Cons.IH [of "snd (enq c s)"]
    by (auto simp: last_accepted_def enq_stored split: list.splits)
qed

lemma run_enq_stored_grows:
  assumes "0 \<le> dedupeWindowMs s" and "map_of (recentHashes s) h = Some t" and "0 < t"
  shows "\<exists>t'. map_of (recentHashes (run_enq cs s)) h = Some t' \<and> t \<le> t'"
  using assms
proof (induction cs arbitrary: s t)
  case Nil
  then show ?case by simp
next
  case (Cons c cs)
  let ?s1 = "snd (enq c s)"
  have "\<exists>t1. map_of (recentHashes ?s1) h = Some t1 \<and> t \<le> t1"
    using Cons.prems by (auto simp: enq_stored enq_accept_iff)
  then obtain t1 where t1: "map_of (recentHashes ?s1) h = Some t1" "t \<le> t1" by blast
  have "\<exists>t'. map_of (recentHashes (run_enq cs ?s1)) h = Some t' \<and> t1 \<le> t'"
    using Cons.IH [of ?s1 t1] Cons.prems t1 by simp
  then show ?case using t1 by fastforce
qed


lemmas queue_eval =
  enq_def enqueueWithId_def enqueue_def newMailQueue_def nullish_def MESSAGE_DEDUP_WINDOW_MS_def
  generateHash_def numberToString_def natToString.simps digitChar_def addDebugLog_def Let_def
  defaultQueue_def mkCall_def digest_input_def call_hash_def

lemma enqueue_via_enq:
  "fst (enqueue (call_id c) (call_to c) (call_subject c) (call_body c) (call_headers c)
          (call_now c) s) = (if fst (enq c s) then Some (call_id c) else None)"
  by (simp add: enqueue_def enq_def split: prod.splits)

text \<open>
  C1 (amended).  Let a call \<open>c1\<close> be accepted at a clock reading after the epoch by a queue with
  a non-negative window, let any calls \<open>cs\<close> follow, and let \<open>c2\<close> carry the digest input of
  \<open>c1\<close> (to, subject, first 200 characters of the body).  If \<open>c2\<close> comes within the window of
  \<open>c1\<close>, it is rejected: \<open>enqueueWithId\<close> returns false, \<open>enqueue\<close> returns null, and the queue
  is unchanged.  If the window has elapsed since every accepted call with the same digest value
  (the hash, which a different digest input may share), \<open>c2\<close> is accepted and appended with
  \<open>attempts = 0\<close>.
\<close>

theorem dedup_window:
  assumes "0 \<le> dedupeWindowMs s0" and "fst (enq c1 s0)" and "0 < call_now c1"
    and "digest_input c2 = digest_input c1"
  shows "(call_now c2 - call_now c1 < dedupeWindowMs s0 \<longrightarrow>
            \<not> fst (enq c2 (run_enq cs (snd (enq c1 s0))))
            \<and> fst (enqueue (call_id c2) (call_to c2) (call_subject c2) (call_body c2)
                     (call_headers c2) (call_now c2) (run_enq cs (snd (enq c1 s0)))) = None
            \<and> queue (snd (enq c2 (run_enq cs (snd (enq c1 s0)))))
                = queue (run_enq cs (snd (enq c1 s0))))
       \<and> ((\<forall>c \<in> set (accepted (c1 # cs) s0).
              call_hash c = call_hash c2 \<longrightarrow> dedupeWindowMs s0 \<le> call_now c2 - call_now c) \<longrightarrow>
            fst (enq c2 (run_enq cs (snd (enq c1 s0))))
            \<and> queue (snd (enq c2 (run_enq cs (snd (enq c1 s0)))))
                = queue (run_enq cs (snd (enq c1 s0))) @
                    [\<lparr> qm_id = call_id c2, qm_to = call_to c2, qm_subject = call_subject c2,
                        qm_body = call_body c2, qm_timestamp = call_now c2, qm_attempts = 0,
                        qm_hash = call_hash c2, qm_headers = call_headers c2 \<rparr>])"
proof -
  let ?s1 = "snd (enq c1 s0)"
  let ?s = "run_enq cs ?s1"
  have h: "call_hash c2 = call_hash c1"
    using assms(4) by (rule digest_input_hash)
  have w: "dedupeWindowMs ?s = dedupeWindowMs s0" by simp
  have first: "map_of (recentHashes ?s1) (call_hash c2) = Some (call_now c1)"
    using assms(2) h by (simp add: enq_stored)
  have within: "\<not> fst (enq c2 ?s)" if "call_now c2 - call_now c1 < dedupeWindowMs s0"
  proof -
    obtain t' where t': "map_of (recentHashes ?s) (call_hash c2) = Some t'" "call_now c1 \<le> t'"
      using run_enq_stored_grows [of ?s1 "call_hash c2" "call_now c1" cs] assms(1,3) first
      by auto
    show ?thesis using t' that assms(3) by (simp add: enq_accept_iff)
  qed
  have after: "fst (enq c2 ?s)"
    if "\<forall>c \<in> set (accepted (c1 # cs) s0).
          call_hash c = call_hash c2 \<longrightarrow> dedupeWindowMs s0 \<le> call_now c2 - call_now c"
  proof -
    let ?F = "filter (\<lambda>c. call_hash c = call_hash c2) (accepted (c1 # cs) s0)"
    have ne: "?F \<noteq> []" using assms(2) h by simp
    have run: "run_enq (c1 # cs) s0 = ?s" by simp
    obtain x xs where F: "?F = x # xs" using ne by (cases ?F) auto
    have "last_accepted (call_hash c2) (c1 # cs) s0 = Some (call_now (last ?F))"
      unfolding last_accepted_def F by simp
    then have st: "map_of (recentHashes ?s) (call_hash c2) = Some (call_now (last ?F))"
      using run_enq_stored [of "c1 # cs" s0 "call_hash c2"] unfolding run by simp
    have "last ?F \<in> set ?F" using ne by (rule last_in_set)
    then have "dedupeWindowMs s0 \<le> call_now c2 - call_now (last ?F)"
      using that by auto
    then show ?thesis using st by (simp add: enq_accept_iff)
  qed
  show ?thesis
  proof (intro conjI impI)
    assume a: "call_now c2 - call_now c1 < dedupeWindowMs s0"
    show "\<not> fst (enq c2 ?s)" using within [OF a] .
    show "fst (enqueue (call_id c2) (call_to c2) (call_subject c2) (call_body c2)
                     (call_headers c2) (call_now c2) ?s) = None"
      using within [OF a] by (simp add: enqueue_via_enq)
    show "queue (snd (enq c2 ?s)) = queue ?s"
      using enq_rejected_state [OF within [OF a]] by simp
  next
    assume b: "\<forall>c \<in> set (accepted (c1 # cs) s0).
          call_hash c = call_hash c2 \<longrightarrow> dedupeWindowMs s0 \<le> call_now c2 - call_now c"
    show "fst (enq c2 ?s)" using after [OF b] .
    show "queue (snd (enq c2 ?s)) = queue ?s @
                    [\<lparr> qm_id = call_id c2, qm_to = call_to c2, qm_subject = call_subject c2,
                        qm_body = call_body c2, qm_timestamp = call_now c2, qm_attempts = 0,
                        qm_hash = call_hash c2, qm_headers = call_headers c2 \<rparr>]"
      using enq_accepted_state [OF after [OF b]] by simp
  qed
qed


theorem dedup_window_witness:
  "0 \<le> dedupeWindowMs defaultQueue
   \<and> fst (enq (mkCall ''1'' ''Aa'' 1000) defaultQueue)
   \<and> \<not> fst (enq (mkCall ''3'' ''Aa'' 1400)
            (run_enq [mkCall ''2'' ''Bob'' 1200] (snd (enq (mkCall ''1'' ''Aa'' 1000) defaultQueue))))
   \<and> fst (enq (mkCall ''3'' ''Aa'' 1500)
            (run_enq [mkCall ''2'' ''Bob'' 1200] (snd (enq (mkCall ''1'' ''Aa'' 1000) defaultQueue))))"
proof -
  have a: "0 \<le> dedupeWindowMs defaultQueue" by (simp add: queue_eval)
  have b: "fst (enq (mkCall ''1'' ''Aa'' 1000) defaultQueue)" by (simp add: queue_eval)
  have c: "0 < call_now (mkCall ''1'' ''Aa'' 1000)" by (simp add: mkCall_def)
  have d: "digest_input (mkCall ''3'' ''Aa'' t) = digest_input (mkCall ''1'' ''Aa'' 1000)" for t
    by (simp add: mkCall_def digest_input_def)
  have e: "call_now (mkCall ''3'' ''Aa'' 1400) - call_now (mkCall ''1'' ''Aa'' 1000)
             < dedupeWindowMs defaultQueue"
    by (simp add: queue_eval)
  have f: "\<forall>c \<in> set (accepted (mkCall ''1'' ''Aa'' 1000 # [mkCall ''2'' ''Bob'' 1200]) defaultQueue).
             call_hash c = call_hash (mkCall ''3'' ''Aa'' 1500) \<longrightarrow>
             dedupeWindowMs defaultQueue \<le> call_now (mkCall ''3'' ''Aa'' 1500) - call_now c"
    by (simp add: queue_eval)
  show ?thesis
    using dedup_window [OF a b c d, of 1400 "[mkCall ''2'' ''Bob'' 1200]"]
          dedup_window [OF a b c d, of 1500 "[mkCall ''2'' ''Bob'' 1200]"] a b e f
    by blast
qed

text \<open>
  As first stated, C1 promises that a duplicate is accepted once the window has elapsed since the
  accepted call with its digest input.  The recipients \<open>Aa\<close> and \<open>BB\<close> have the same hash: the
  call to \<open>BB\<close> at 1600 is accepted and refreshes the shared entry, and the duplicate of the call
  to \<open>Aa\<close> of 1000, submitted at 1700 with a window of 500, is rejected.
\<close>

theorem dedup_after_window_counterexample:
  "digest_input (mkCall ''3'' ''Aa'' 1700) = digest_input (mkCall ''1'' ''Aa'' 1000)
   \<and> digest_input (mkCall ''2'' ''BB'' 1600) \<noteq> digest_input (mkCall ''3'' ''Aa'' 1700)
   \<and> accepted [mkCall ''1'' ''Aa'' 1000, mkCall ''2'' ''BB'' 1600] defaultQueue
        = [mkCall ''1'' ''Aa'' 1000, mkCall ''2'' ''BB'' 1600]
   \<and> dedupeWindowMs defaultQueue
        \<le> call_now (mkCall ''3'' ''Aa'' 1700) - call_now (mkCall ''1'' ''Aa'' 1000)
   \<and> \<not> fst (enq (mkCall ''3'' ''Aa'' 1700)
            (run_enq [mkCall ''1'' ''Aa'' 1000, mkCall ''2'' ''BB'' 1600] defaultQueue))"
  by (simp add: queue_eval)


text \<open>
  C10.  A call that \<open>enqueueWithId\<close> rejects as a duplicate returns false and leaves the queue
  and the map of recent hashes as they were.  Hence, after any run of calls, the timestamp
  stored for a digest is the clock reading of the last accepted call with that digest (never
  that of a rejected attempt), and the next call is judged against that reading.
\<close>

theorem duplicate_rejection_frame:
  "(\<not> fst (enqueueWithId ident to subj bdy hdrs t s) \<longrightarrow>
      queue (snd (enqueueWithId ident to subj bdy hdrs t s)) = queue s
      \<and> recentHashes (snd (enqueueWithId ident to subj bdy hdrs t s)) = recentHashes s)
   \<and> map_of (recentHashes (run_enq cs s)) h = last_accepted h cs s
   \<and> (fst (enq c (run_enq cs s)) \<longleftrightarrow>
        (case last_accepted (call_hash c) cs s of
           None \<Rightarrow> True
         | Some seen \<Rightarrow> seen = 0 \<or> dedupeWindowMs s \<le> call_now c - seen))"
proof (intro conjI impI)
  let ?c = "\<lparr> call_id = ident, call_to = to, call_subject = subj, call_body = bdy,
              call_headers = hdrs, call_now = t \<rparr>"
  have e: "enq ?c s = enqueueWithId ident to subj bdy hdrs t s"
    by (simp add: enq_def)
  assume "\<not> fst (enqueueWithId ident to subj bdy hdrs t s)"
  then have "\<not> fst (enq ?c s)" using e by simp
  from enq_rejected_state [OF this]
  show "queue (snd (enqueueWithId ident to subj bdy hdrs t s)) = queue s"
    and "recentHashes (snd (enqueueWithId ident to subj bdy hdrs t s)) = recentHashes s"
    using e by simp_all
next
  show "map_of (recentHashes (run_enq cs s)) h = last_accepted h cs s"
    by (rule run_enq_stored)
next
  show "fst (enq c (run_enq cs s)) \<longleftrightarrow>
        (case last_accepted (call_hash c) cs s of
           None \<Rightarrow> True
         | Some seen \<Rightarrow> seen = 0 \<or> dedupeWindowMs s \<le> call_now c - seen)"
    by (simp add: enq_accept_iff run_enq_stored cong: option.case_cong)
qed

theorem duplicate_rejection_frame_witness:
  "\<not> fst (enqueueWithId ''2'' ''Aa'' ''s'' ''b'' None 1400 (snd (enq (mkCall ''1'' ''Aa'' 1000) defaultQueue)))
   \<and> recentHashes (snd (enqueueWithId ''2'' ''Aa'' ''s'' ''b'' None 1400
          (snd (enq (mkCall ''1'' ''Aa'' 1000) defaultQueue))))
       = recentHashes (snd (enq (mkCall ''1'' ''Aa'' 1000) defaultQueue))
   \<and> queue (snd (enqueueWithId ''2'' ''Aa'' ''s'' ''b'' None 1400
          (snd (enq (mkCall ''1'' ''Aa'' 1000) defaultQueue))))
       = queue (snd (enq (mkCall ''1'' ''Aa'' 1000) defaultQueue))"
proof -
  have r: "\<not> fst (enqueueWithId ''2'' ''Aa'' ''s'' ''b'' None 1400
                   (snd (enq (mkCall ''1'' ''Aa'' 1000) defaultQueue)))"
    by (simp add: queue_eval)
  show ?thesis
    using r duplicate_rejection_frame
      [of "''2''" "''Aa''" "''s''" "''b''" None 1400 "snd (enq (mkCall ''1'' ''Aa'' 1000) defaultQueue)"]
    by blast
qed

text \<open>
  C7.  An item whose attempts have reached \<open>maxAttempts\<close> is dropped by \<open>requeue\<close>: the queue
  is unchanged.  An item with fewer attempts is put back at the front of the queue.  With the
  default configuration the bound is 3.
\<close>

theorem requeue_drops_or_reinserts:
  "(maxAttempts s \<le> qm_attempts mail \<longrightarrow> queue (requeue mail t s) = queue s)
   \<and> (qm_attempts mail < maxAttempts s \<longrightarrow> queue (requeue mail t s) = mail # queue s)
   \<and> maxAttempts (newMailQueue \<lparr> cfg_dedupeWindowMs = None, cfg_maxAttempts = None,
         cfg_maxDebugLog = None, cfg_enableConsoleLogging = None \<rparr>) = 3"
  by (simp add: requeue_def newMailQueue_def nullish_def)


theorem requeue_drops_or_reinserts_witness:
  "maxAttempts defaultQueue \<le> qm_attempts \<lparr> qm_id = ''1'', qm_to = ''a'', qm_subject = ''s'',
       qm_body = ''b'', qm_timestamp = 5, qm_attempts = 3, qm_hash = ''h'', qm_headers = None \<rparr>
   \<and> queue (requeue \<lparr> qm_id = ''1'', qm_to = ''a'', qm_subject = ''s'',
       qm_body = ''b'', qm_timestamp = 5, qm_attempts = 3, qm_hash = ''h'', qm_headers = None \<rparr>
       9 defaultQueue) = []
   \<and> qm_attempts \<lparr> qm_id = ''1'', qm_to = ''a'', qm_subject = ''s'',
       qm_body = ''b'', qm_timestamp = 5, qm_attempts = 2, qm_hash = ''h'', qm_headers = None \<rparr>
       < maxAttempts defaultQueue
   \<and> queue (requeue \<lparr> qm_id = ''1'', qm_to = ''a'', qm_subject = ''s'',
       qm_body = ''b'', qm_timestamp = 5, qm_attempts = 2, qm_hash = ''h'', qm_headers = None \<rparr>
       9 defaultQueue)
      = [\<lparr> qm_id = ''1'', qm_to = ''a'', qm_subject = ''s'',
       qm_body = ''b'', qm_timestamp = 5, qm_attempts = 2, qm_hash = ''h'', qm_headers = None \<rparr>]"
proof -
  have q: "queue defaultQueue = []" and m: "maxAttempts defaultQueue = 3"
    by (simp_all add: defaultQueue_def newMailQueue_def nullish_def)
  show ?thesis
    using requeue_drops_or_reinserts [of defaultQueue "\<lparr> qm_id = ''1'', qm_to = ''a'',
        qm_subject = ''s'', qm_body = ''b'', qm_timestamp = 5, qm_attempts = 3, qm_hash = ''h'',
        qm_headers = None \<rparr>" 9]
      requeue_drops_or_reinserts [of defaultQueue "\<lparr> qm_id = ''1'', qm_to = ''a'',
        qm_subject = ''s'', qm_body = ''b'', qm_timestamp = 5, qm_attempts = 2, qm_hash = ''h'',
        qm_headers = None \<rparr>" 9]
    by (simp add: q m)
qed

section \<open>Properties of the response correlation\<close>

lemma includes_iff: "str_includes s n \<longleftrightarrow> (\<exists>p q. s = p @ n @ q)"
proof (induction s)
  case Nil
  then show ?case by auto
next
  case (Cons c cs)
  show ?case
  proof
    assume "str_includes (c # cs) n"
    then consider "take (length n) (c # cs) = n" | "str_includes cs n" by auto
    then show "\<exists>p q. c # cs = p @ n @ q"
    proof cases
      case 1
      then have "c # cs = [] @ n @ drop (length n) (c # cs)"
        by (metis append_Nil append_take_drop_id)
      then show ?thesis by blast
    next
      case 2
      then obtain p q where "cs = p @ n @ q" using Cons.IH by blast
      then have "c # cs = (c # p) @ n @ q" by simp
      then show ?thesis by blast
    qed
  next
    assume "\<exists>p q. c # cs = p @ n @ q"
    then obtain p q where pq: "c # cs = p @ n @ q" by blast
    show "str_includes (c # cs) n"
    proof (cases p)
      case Nil
      then have "take (length n) (c # cs) = n" using pq by simp
      then show ?thesis by simp
    next
      case (Cons a p')
      then have "cs = p' @ n @ q" using pq by simp
      then have "str_includes cs n" using Cons.IH by blast
      then show ?thesis by simp
    qed
  qed
qed

text \<open>
  C2.  A mail whose \<open>in_reply_to\<close> equals the message id of the sent mail is accepted whatever
  its subject, for a literal and for a pattern alike.  Otherwise, for a literal expected subject
  \<open>S\<close>, a mail with a string subject is accepted exactly when the subject is \<open>Response: S\<close>, is
  \<open>Re: S\<close>, or contains \<open>S\<close>; for a pattern it is accepted exactly when the pattern matches the
  subject.
\<close>

theorem isResponse_correlation:
  "(getProp mail ''in_reply_to'' = JStr messageId \<longrightarrow> isResponse mail messageId e = Inr True)
   \<and> (getProp mail ''in_reply_to'' \<noteq> JStr messageId \<and> getProp mail ''subject'' = JStr subj \<longrightarrow>
        isResponse mail messageId (Literal expected)
          = Inr (subj = ''Response: '' @ expected \<or> subj = ''Re: '' @ expected
                 \<or> (\<exists>p q. subj = p @ expected @ q)))
   \<and> (getProp mail ''in_reply_to'' \<noteq> JStr messageId \<longrightarrow>
        isResponse mail messageId (Pattern test) = Inr (test (getProp mail ''subject'')))"
proof (intro conjI impI)
  assume "getProp mail ''in_reply_to'' \<noteq> JStr messageId \<and> getProp mail ''subject'' = JStr subj"
  moreover have "str_includes (''Response: '' @ expected) expected"
    unfolding includes_iff by blast
  moreover have "str_includes (''Re: '' @ expected) expected"
    unfolding includes_iff by blast
  ultimately show "isResponse mail messageId (Literal expected)
          = Inr (subj = ''Response: '' @ expected \<or> subj = ''Re: '' @ expected
                 \<or> (\<exists>p q. subj = p @ expected @ q))"
    by (auto simp: isResponse_def Let_def includes_iff [symmetric])
qed (simp_all add: isResponse_def)

theorem isResponse_correlation_witness:
  "isResponse (JObj [(''subject'', JStr ''unrelated''), (''in_reply_to'', JStr ''<1@x>'')])
      ''<1@x>'' (Literal ''List Projects'') = Inr True
   \<and> isResponse (JObj [(''subject'', JStr ''Re: List Projects'')])
      ''<1@x>'' (Literal ''List Projects'') = Inr True
   \<and> isResponse (JObj [(''subject'', JStr ''List'')])
      ''<1@x>'' (Literal ''List Projects'') = Inr False
   \<and> isResponse (JObj [(''subject'', JStr ''abc'')])
      ''<1@x>'' (Pattern (\<lambda>v. v = JStr ''abc'')) = Inr True"
proof -
  have a: "isResponse (JObj [(''subject'', JStr ''unrelated''), (''in_reply_to'', JStr ''<1@x>'')])
      ''<1@x>'' (Literal ''List Projects'') = Inr True"
    using isResponse_correlation
      [of "JObj [(''subject'', JStr ''unrelated''), (''in_reply_to'', JStr ''<1@x>'')]" "''<1@x>''"
          "Literal ''List Projects''"]
    by simp
  have b: "isResponse (JObj [(''subject'', JStr ''Re: List Projects'')])
      ''<1@x>'' (Literal ''List Projects'') = Inr True"
    using isResponse_correlation
      [of "JObj [(''subject'', JStr ''Re: List Projects'')]" "''<1@x>''" _
          "''Re: List Projects''" "''List Projects''"]
    by simp
  have c: "isResponse (JObj [(''subject'', JStr ''List'')])
      ''<1@x>'' (Literal ''List Projects'') = Inr False"
  proof -
    have "\<not> (\<exists>p q. ''List'' = p @ ''List Projects'' @ q)"
    proof
      assume "\<exists>p q. ''List'' = p @ ''List Projects'' @ q"
      then obtain p q where "''List'' = p @ ''List Projects'' @ q" by blast
      then have "length ''List'' = length (p @ ''List Projects'' @ q)" by (rule arg_cong)
      then show False by simp
    qed
    then show ?thesis
      using isResponse_correlation
        [of "JObj [(''subject'', JStr ''List'')]" "''<1@x>''" _ "''List''" "''List Projects''"]
      by simp
  qed
  have d: "isResponse (JObj [(''subject'', JStr ''abc'')])
      ''<1@x>'' (Pattern (\<lambda>v. v = JStr ''abc'')) = Inr True"
    using isResponse_correlation
      [of "JObj [(''subject'', JStr ''abc'')]" "''<1@x>''" _ _ _ "\<lambda>v. v = JStr ''abc''"]
    by simp
  show ?thesis using a b c d by blast
qed

section \<open>Properties of MailHandlerRegistry\<close>

lemma registry_inv_new: "registry_inv newRegistry"
  by (simp add: registry_inv_def newRegistry_def)

lemma registry_inv_update: "registry_inv (updateSortedHandlers s)"
  by (simp add: registry_inv_def updateSortedHandlers_def)

lemma registry_inv_step: "registry_inv s \<Longrightarrow> registry_inv (apply_registry_op x s)"
proof (cases x)
  case (Register h)
  assume "registry_inv s"
  then show ?thesis using Register
    by (simp add: register_def registry_inv_update)
next
  case (Unregister k)
  assume inv: "registry_inv s"
  show ?thesis
  proof (cases "map_of (handlers s) k")
    case None
    then have "k \<notin> fst ` set (handlers s)" by (simp add: map_of_eq_None_iff)
    then have "AList.delete k (handlers s) = handlers s" by simp
    then show ?thesis using inv None Unregister
      by (simp add: unregister_def registry_inv_def)
  next
    case (Some h)
    then show ?thesis using Unregister
      by (simp add: unregister_def registry_inv_update)
  qed
next
  case Clear
  then show ?thesis by (simp add: clearRegistry_def registry_inv_def)
qed

lemma registry_inv_fold: "registry_inv s \<Longrightarrow> registry_inv (fold apply_registry_op xs s)"
  by (induction xs arbitrary: s) (simp_all add: registry_inv_step)

lemma registry_inv_run: "registry_inv (run_registry xs)"
  unfolding run_registry_def by (rule registry_inv_fold [OF registry_inv_new])

lemma sorted_descending:
  "sorted_wrt (\<lambda>a b. priorityOrZero b \<le> priorityOrZero a)
     (sort_key (\<lambda>h. - priorityOrZero h) xs)"
proof -
  have "sorted (map (\<lambda>h. - priorityOrZero h) (sort_key (\<lambda>h. - priorityOrZero h) xs))"
    by (rule sorted_sort_key)
  then show ?thesis by (simp add: sorted_map)
qed

lemma process_loop_visited:
  "process_loop hs mail =
     (concat (map (results_of mail) (visited hs mail)),
      concat (map (calls_of mail) (visited hs mail)))"
proof (induction hs)
  case Nil
  then show ?case by (simp add: visited_def)
next
  case (Cons h hs)
  show ?case
  proof (cases "fully_handles mail h")
    case True
    then show ?thesis
      by (auto simp: visited_def fully_handles_def results_of_def calls_of_def
               split: sum.splits bool.splits)
  next
    case False
    then have v: "visited (h # hs) mail = h # visited hs mail"
      by (simp add: visited_def)
    show ?thesis
      using False Cons.IH unfolding v
      by (auto simp: fully_handles_def results_of_def calls_of_def
               split: sum.splits bool.splits prod.splits)
  qed
qed

lemma update_fresh_key:
  "k \<notin> fst ` set al \<Longrightarrow> AList.update k v al = al @ [(k, v)]"
  by (induction al) auto

lemma register_appends:
  assumes "register h s = Inr s'"
  shows "map snd (handlers s') = map snd (handlers s) @ [h]"
proof -
  have none: "map_of (handlers s) (handler_id h) = None"
    using assms by (auto simp: register_def split: if_splits)
  then have "handler_id h \<notin> fst ` set (handlers s)" by (simp add: map_of_eq_None_iff)
  then have "AList.update (handler_id h) h (handlers s) = handlers s @ [(handler_id h, h)]"
    by (rule update_fresh_key)
  then show ?thesis using assms none
    by (auto simp: register_def updateSortedHandlers_def)
qed

text \<open>
  C3.  In the registry built by any sequence of operations, \<open>sortedHandlers\<close> is in descending
  priority order (a missing priority counts as 0), handlers of equal priority stand in their
  order of registration, and a successful registration puts the handler last in that order.
  \<open>process\<close> visits the handlers in this order up to and including the first one that accepts
  the mail and returns a result with \<open>handled\<close> and no error; it calls \<open>handle\<close> on exactly the
  visited handlers whose \<open>canHandle\<close> accepts the mail.  A handler that throws adds the result
  \<open>{handled: false, error}\<close> with the error it threw, and the loop goes on with the handlers
  after it.
\<close>

theorem process_priority_order:
  "sorted_wrt (\<lambda>a b. priorityOrZero b \<le> priorityOrZero a) (sortedHandlers (run_registry xs))
   \<and> (\<forall>p. filter (\<lambda>h. priorityOrZero h = p) (sortedHandlers (run_registry xs))
          = filter (\<lambda>h. priorityOrZero h = p) (map snd (handlers (run_registry xs))))
   \<and> (register h (run_registry xs) = Inr s' \<longrightarrow>
        map snd (handlers s') = map snd (handlers (run_registry xs)) @ [h])
   \<and> process mail (run_registry xs)
       = (concat (map (results_of mail) (visited (sortedHandlers (run_registry xs)) mail)),
          concat (map (calls_of mail) (visited (sortedHandlers (run_registry xs)) mail)))
   \<and> (canHandle g mail = Inl e \<or> (canHandle g mail = Inr True \<and> handle g mail = Inl e) \<longrightarrow>
        fst (process_loop (g # gs) mail)
          = \<lparr> handled = False, res_data = JUndef, res_error = Some e \<rparr> # fst (process_loop gs mail)
        \<and> results_of mail g = [\<lparr> handled = False, res_data = JUndef, res_error = Some e \<rparr>]
        \<and> snd (process_loop (g # gs) mail) = calls_of mail g @ snd (process_loop gs mail))"
proof -
  have inv: "sortedHandlers (run_registry xs)
               = sort_key (\<lambda>h. - priorityOrZero h) (map snd (handlers (run_registry xs)))"
    using registry_inv_run [of xs] by (simp add: registry_inv_def)
  have a: "sorted_wrt (\<lambda>a b. priorityOrZero b \<le> priorityOrZero a)
             (sortedHandlers (run_registry xs))"
    unfolding inv by (rule sorted_descending)
  have b: "filter (\<lambda>h. priorityOrZero h = p) (sortedHandlers (run_registry xs))
          = filter (\<lambda>h. priorityOrZero h = p) (map snd (handlers (run_registry xs)))" for p
  proof -
    have "filter (\<lambda>h. - priorityOrZero h = - p)
            (sort_key (\<lambda>h. - priorityOrZero h) (map snd (handlers (run_registry xs))))
          = filter (\<lambda>h. - priorityOrZero h = - p) (map snd (handlers (run_registry xs)))"
      by (rule sort_key_stable)
    then show ?thesis unfolding inv by simp
  qed
  have c: "register h (run_registry xs) = Inr s' \<longrightarrow>
        map snd (handlers s') = map snd (handlers (run_registry xs)) @ [h]"
    using register_appends by blast
  have d: "process mail (run_registry xs)
       = (concat (map (results_of mail) (visited (sortedHandlers (run_registry xs)) mail)),
          concat (map (calls_of mail) (visited (sortedHandlers (run_registry xs)) mail)))"
    unfolding process_def by (rule process_loop_visited)
  have e: "canHandle g mail = Inl e \<or> (canHandle g mail = Inr True \<and> handle g mail = Inl e) \<longrightarrow>
        fst (process_loop (g # gs) mail)
          = \<lparr> handled = False, res_data = JUndef, res_error = Some e \<rparr> # fst (process_loop gs mail)
        \<and> results_of mail g = [\<lparr> handled = False, res_data = JUndef, res_error = Some e \<rparr>]
        \<and> snd (process_loop (g # gs) mail) = calls_of mail g @ snd (process_loop gs mail)"
    by (auto simp: calls_of_def results_of_def thrown_def split: prod.splits)
  show ?thesis using a b c d e by blast
qed

lemmas registry_eval =
  demoOps_def run_registry_def register_def updateSortedHandlers_def newRegistry_def
  mkHandler_def okResult_def priorityOrZero_def process_def thrown_def

theorem process_priority_order_witness:
  "map handler_id (sortedHandlers (run_registry demoOps))
     = [''boom'', ''deaf'', ''mid'', ''low'', ''last'']
   \<and> process (JStr ''m'') (run_registry demoOps)
     = ([\<lparr> handled = False, res_data = JUndef, res_error = Some ''boom'' \<rparr>,
         okResult],
        [CallCanHandle ''boom'', CallHandle ''boom'', CallCanHandle ''deaf'',
         CallCanHandle ''mid'', CallHandle ''mid''])
   \<and> register (mkHandler ''new'' (Some 5) (Inr True) (Inr okResult)) (run_registry demoOps)
     = Inr (updateSortedHandlers ((run_registry demoOps)
          \<lparr> handlers := AList.update ''new'' (mkHandler ''new'' (Some 5) (Inr True) (Inr okResult))
                           (handlers (run_registry demoOps)) \<rparr>))
   \<and> map handler_id (map snd (handlers (updateSortedHandlers ((run_registry demoOps)
          \<lparr> handlers := AList.update ''new'' (mkHandler ''new'' (Some 5) (Inr True) (Inr okResult))
                           (handlers (run_registry demoOps)) \<rparr>))))
     = [''low'', ''deaf'', ''boom'', ''mid'', ''last'', ''new'']
   \<and> fst (process_loop [mkHandler ''boom'' (Some 9) (Inr True) (Inl ''boom''),
                          mkHandler ''low'' None (Inr True) (Inr okResult)] (JStr ''m''))
     = [\<lparr> handled = False, res_data = JUndef, res_error = Some ''boom'' \<rparr>,
         okResult]"
proof -
  have r: "register (mkHandler ''new'' (Some 5) (Inr True) (Inr okResult)) (run_registry demoOps)
     = Inr (updateSortedHandlers ((run_registry demoOps)
          \<lparr> handlers := AList.update ''new'' (mkHandler ''new'' (Some 5) (Inr True) (Inr okResult))
                           (handlers (run_registry demoOps)) \<rparr>))"
    by (simp add: registry_eval)
  have t: "canHandle (mkHandler ''boom'' (Some 9) (Inr True) (Inl ''boom'')) (JStr ''m'') = Inr True
           \<and> handle (mkHandler ''boom'' (Some 9) (Inr True) (Inl ''boom'')) (JStr ''m'') = Inl ''boom''"
    by (simp add: mkHandler_def)
  have h: "map handler_id (map snd (handlers (run_registry demoOps)))
             = [''low'', ''deaf'', ''boom'', ''mid'', ''last'']"
    by (simp add: registry_eval)
  have s: "map handler_id (sortedHandlers (run_registry demoOps))
     = [''boom'', ''deaf'', ''mid'', ''low'', ''last'']"
    by (simp add: registry_eval)
  have p: "process (JStr ''m'') (run_registry demoOps)
     = ([\<lparr> handled = False, res_data = JUndef, res_error = Some ''boom'' \<rparr>,
         okResult],
        [CallCanHandle ''boom'', CallHandle ''boom'', CallCanHandle ''deaf'',
         CallCanHandle ''mid'', CallHandle ''mid''])"
    by (simp add: registry_eval)
  have l: "fst (process_loop [mkHandler ''low'' None (Inr True) (Inr okResult)] (JStr ''m''))
             = [okResult]"
    by (simp add: mkHandler_def okResult_def)
  note inst = process_priority_order
    [of demoOps "mkHandler ''new'' (Some 5) (Inr True) (Inr okResult)"
        "updateSortedHandlers ((run_registry demoOps)
          \<lparr> handlers := AList.update ''new'' (mkHandler ''new'' (Some 5) (Inr True) (Inr okResult))
                           (handlers (run_registry demoOps)) \<rparr>)"
        "JStr ''m''" "mkHandler ''boom'' (Some 9) (Inr True) (Inl ''boom'')" "''boom''"
        "[mkHandler ''low'' None (Inr True) (Inr okResult)]"]
  have n: "map handler_id (map snd (handlers (updateSortedHandlers ((run_registry demoOps)
          \<lparr> handlers := AList.update ''new'' (mkHandler ''new'' (Some 5) (Inr True) (Inr okResult))
                           (handlers (run_registry demoOps)) \<rparr>))))
     = [''low'', ''deaf'', ''boom'', ''mid'', ''last'', ''new'']"
    using inst r h by (simp add: mkHandler_def)
  have f: "fst (process_loop [mkHandler ''boom'' (Some 9) (Inr True) (Inl ''boom''),
                          mkHandler ''low'' None (Inr True) (Inr okResult)] (JStr ''m''))
     = [\<lparr> handled = False, res_data = JUndef, res_error = Some ''boom'' \<rparr>,
         okResult]"
    using inst t l by (simp add: thrown_def)
  show ?thesis using r s p n f by blast
qed

section \<open>Properties of the connection lifecycle\<close>

lemmas view_defs = view_def gaveUp_def

lemma transitions_append: "transitions (xs @ ys) = transitions xs @ transitions ys"
  by (induction xs rule: transitions.induct) simp_all

lemma follows_append:
  "follows a (xs @ ys) = (case follows a xs of None \<Rightarrow> None | Some b \<Rightarrow> follows b ys)"
  by (induction xs arbitrary: a) auto

lemma walk_tv: "view s' = view s \<Longrightarrow> walk s' = walk s"
  by (simp add: view_defs walk_def)

lemma view_state: "view s' = view s \<Longrightarrow> state s' = state s"
  by (simp add: view_defs)

lemma view_setTimer [simp]: "view (setTimer t d s) = view s"
  by (simp add: view_defs setTimer_def)

lemma view_clearTimer [simp]: "view (clearTimer t s) = view s"
  by (simp add: view_defs clearTimer_def)

lemma view_logError [simp]:
  "m \<noteq> ''Max reconnection attempts reached'' \<Longrightarrow> view (logError m s) = view s"
  by (simp add: view_defs logError_def gaveUp_def)

lemma view_settle [simp]: "view (settle p out s) = view s"
  by (simp add: view_defs settle_def)

lemma view_setReadyState [simp]: "view (setReadyState k r s) = view s"
  by (simp add: view_defs setReadyState_def split: option.splits)

lemma view_ws_send: "ws_send e k f s = Inr s' \<Longrightarrow> view s' = view s"
  by (auto simp: view_defs ws_send_def split: if_splits)

lemma view_ws_close [simp]: "view (ws_close k s) = view s"
  by (simp add: ws_close_def Let_def view_defs setReadyState_def split: option.splits)

lemma view_cleanup [simp]: "view (cleanup w s) = view s"
  by (simp add: cleanup_def view_defs clearTimer_def)

lemma view_settleWait [simp]: "view (settleWait w out s) = view s"
  by (simp add: settleWait_def view_defs split: option.splits)

lemma view_deliver [simp]: "view (deliver mail h s) = view s"
proof -
  have a: "view (settleWait w out (cleanup w s)) = view s" for w out by simp
  show ?thesis
    unfolding deliver_def
    by (simp add: a split: mail_handler.splits option.splits sum.splits bool.splits)
       (simp add: view_defs)
qed

lemma view_fold_deliver [simp]: "view (fold (deliver mail) hs s) = view s"
  by (induction hs arbitrary: s) simp_all

lemma view_emitMail [simp]: "view (emitMail mail s) = view s"
  by (simp add: emitMail_def)

lemma view_handleMailMessage [simp]: "view (handleMailMessage e m s) = view s"
proof -
  have a: "view (x\<lparr> userEmail := u, defaultFrom := d \<rparr>) = view x"
    "view (x\<lparr> uiAgentEmail := v \<rparr>) = view x" for x u d v
    by (simp_all add: view_defs)
  show ?thesis
    unfolding handleMailMessage_def Let_def by (simp add: a)
qed

lemma view_sendIdentity [simp]: "view (sendIdentity e s) = view s"
  unfolding sendIdentity_def Let_def
  by (auto split: option.splits sum.splits dest: view_ws_send)

lemma view_update_emitted:
  "view (s\<lparr> emitted := evs \<rparr>)
     = (state s, transitions evs, reconnectAttempts s, config s, gaveUp s)"
  by (simp add: view_defs gaveUp_def)

lemma view_emit:
  "view (emit e ev s) = (state s, transitions (emitted s) @ transitions [ev],
                       reconnectAttempts s, config s, gaveUp s)"
  unfolding emit_def Let_def
  by (cases ev) (simp_all add: view_update_emitted transitions_append)

lemma view_emit_other [simp]:
  "view (emit e EV_CONNECTED s) = view s" "view (emit e EV_DISCONNECTED s) = view s"
  "view (emit e EV_ERROR s) = view s" "view (emit e (EV_MESSAGE m) s) = view s"
  by (simp_all add: view_emit) (simp_all add: view_defs)

lemma view_setState:
  "view (setState e st s) =
     (st, transitions (emitted s) @ (if state s = st then [] else [(state s, st)]),
      reconnectAttempts s, config s, gaveUp s)"
proof -
  have st: "state (emit e ev x) = state x"
    "transitions (emitted (emit e ev x)) = transitions (emitted x) @ transitions [ev]"
    "reconnectAttempts (emit e ev x) = reconnectAttempts x"
    "config (emit e ev x) = config x" "gaveUp (emit e ev x) = gaveUp x" for ev x
    using view_emit [of e ev x] by (simp_all add: view_def)
  have up: "gaveUp (s\<lparr> state := x \<rparr>) = gaveUp s" for x by (simp add: gaveUp_def)
  show ?thesis
    unfolding setState_def Let_def
    by (simp add: view_def st up)
qed

lemma state_setState [simp]: "state (setState e st s) = st"
  using view_setState [of e st s] by (simp add: view_defs)

lemma walk_setState:
  assumes "walk s" and "state s = st \<or> allowedMove (state s) st"
  shows "walk (setState e st s)"
proof -
  have em: "transitions (emitted (setState e st s)) =
              transitions (emitted s) @ (if state s = st then [] else [(state s, st)])"
    using view_setState [of e st s] by (simp add: view_defs)
  show ?thesis
    using assms unfolding walk_def em
    by (auto simp: follows_append)
qed

lemma view_clearTimers [simp]: "view (clearTimers s) = view s"
proof -
  have a: "view (x\<lparr> reconnectTimer := v \<rparr>) = view x" "view (x\<lparr> heartbeatTimer := v \<rparr>) = view x" for x v
    by (simp_all add: view_defs)
  show ?thesis
    unfolding clearTimers_def Let_def by (simp add: a split: option.splits)
qed

lemma view_startHeartbeat [simp]: "view (startHeartbeat e s) = view s"
  unfolding startHeartbeat_def Let_def by (simp add: view_defs setTimer_def)

lemma view_fold_reject [simp]:
  "view (fold (\<lambda>(k, p) s'. settle p out (clearTimer (RequestTimer p k) s')) xs s) = view s"
  by (induction xs arbitrary: s) (simp_all add: split_def)

lemma view_rejectAllPending [simp]: "view (rejectAllPending m s) = view s"
proof -
  have a: "view (x\<lparr> pendingRequests := v \<rparr>) = view x" for x v by (simp add: view_defs)
  show ?thesis unfolding rejectAllPending_def by (simp add: a)
qed

lemma view_resolveConnect [simp]: "view (resolveConnect k s) = view s"
  unfolding resolveConnect_def by (simp add: view_defs split: option.splits)

lemma view_requestTimedOut [simp]: "view (requestTimedOut p k s) = view s"
  unfolding requestTimedOut_def by (simp add: view_defs settle_def)

lemma view_waitTimedOut [simp]: "view (waitTimedOut w s) = view s"
  unfolding waitTimedOut_def by (simp split: option.splits)

lemma view_onHeartbeat [simp]: "view (onHeartbeat e n s) = view s"
proof -
  have a: "view (x\<lparr> wire := v \<rparr>) = view x" for x v by (simp add: view_defs)
  show ?thesis
    unfolding onHeartbeat_def Let_def
    by (auto simp: a split: option.splits sum.splits dest!: view_ws_send)
qed

lemma view_send [simp]: "view (send e m s) = view s"
proof -
  have a: "view (x\<lparr> fresh := v \<rparr>) = view x" "view (x\<lparr> pendingRequests := u \<rparr>) = view x" for x v u
    by (simp_all add: view_defs)
  show ?thesis
    unfolding send_def Let_def
    by (auto simp: a split: option.splits sum.splits dest!: view_ws_send)
qed

lemma view_sendMail [simp]: "view (snd (sendMail e m s)) = view s"
  unfolding sendMail_def
  by (auto split: option.splits sum.splits dest!: view_ws_send)

lemma view_sendMailTo [simp]: "view (snd (sendMailTo e to subj bdy opts s)) = view s"
proof -
  have a: "view (x\<lparr> fresh := v \<rparr>) = view x" for x v by (simp add: view_defs)
  show ?thesis unfolding sendMailTo_def Let_def by (simp add: a)
qed

lemma view_sendAndWait [simp]: "view (sendAndWait e to subj bdy opts s) = view s"
proof -
  have a: "view (x\<lparr> waits := v \<rparr>) = view x" "view (x\<lparr> waitSettled := u \<rparr>) = view x"
    "view (x\<lparr> waits := v, mailHandlers := hs, fresh := n \<rparr>) = view x" for x v u hs n
    by (simp_all add: view_defs)
  have b: "view s2 = view s1" if "sendMailTo e to subj bdy mo s1 = (r, s2)" for mo s1 r s2
    using view_sendMailTo [of e to subj bdy mo s1] that by simp
  show ?thesis
    unfolding sendAndWait_def Let_def
    by (auto simp: a split: prod.splits option.splits dest!: b)
qed

lemma view_onMail [simp]: "view (onMail s) = view s"
  unfolding onMail_def Let_def by (simp add: view_defs)

lemma view_offMail [simp]: "view (offMail n s) = view s"
  unfolding offMail_def by (simp add: view_defs)

lemma view_handleMessage [simp]: "view (handleMessage e d s) = view s"
proof -
  have a: "view (x\<lparr> pendingRequests := u \<rparr>) = view x" for x u
    by (simp_all add: view_defs)
  show ?thesis
    unfolding handleMessage_def Let_def
    by (simp add: a split: inbound.splits option.splits prod.splits jsval.splits)
qed

lemma calm_tv: "view s' = view s \<Longrightarrow> calm s' = calm s"
  by (simp add: calm_def view_def)

lemma calm_frame: "view s' = view s \<Longrightarrow> calm s \<Longrightarrow> calm s'"
  using calm_tv [of s' s] by simp

lemma calm_setState: "calm s \<Longrightarrow> st \<noteq> CONNECTED \<Longrightarrow> calm (setState e st s)"
  using view_setState [of e st s] by (simp add: calm_def view_def)

lemma scheduleReconnect_arms:
  assumes "reconnectAttempts s < orElse (maxReconnectAttempts (config s)) 5"
  shows "state (scheduleReconnect e s) = state s
         \<and> reconnectAttempts (scheduleReconnect e s) = reconnectAttempts s + 1
         \<and> reconnectTimer (scheduleReconnect e s) = Some (fresh s)
         \<and> map_of (timers (scheduleReconnect e s)) (ReconnectTimer (fresh s))
             = Some (now e + orElse (reconnectInterval (config s)) 5000)
         \<and> gaveUp (scheduleReconnect e s) = gaveUp s
         \<and> config (scheduleReconnect e s) = config s"
  using assms
  by (simp add: scheduleReconnect_def Let_def setTimer_def update_conv' gaveUp_def)

lemma calm_handleDisconnect: "calm s \<Longrightarrow> calm (handleDisconnect e s)"
proof -
  assume c: "calm s"
  let ?s1 = "clearTimers s"
  let ?s2 = "setState e DISCONNECTED ?s1"
  let ?s3 = "rejectAllPending ''Connection lost'' ?s2"
  have c1: "calm ?s1" using c by (rule calm_frame [rotated]) simp
  have c2: "calm ?s2" using c1 by (rule calm_setState) simp
  have c3: "calm ?s3" using c2 by (rule calm_frame [rotated]) simp
  have t3: "view ?s3 = view ?s2" by simp
  have a3: "reconnectAttempts ?s3 = reconnectAttempts s" "state ?s3 = DISCONNECTED"
    using t3 view_setState [of e DISCONNECTED ?s1] view_clearTimers [of s]
    by (simp_all add: view_def)
  have sched: "calm (scheduleReconnect e ?s3)" if "state ?s1 = CONNECTED"
  proof -
    have "state s = CONNECTED" using that view_clearTimers [of s] by (simp add: view_def)
    then have z: "reconnectAttempts ?s3 = 0" using c a3 by (simp add: calm_def)
    then have lt: "reconnectAttempts ?s3 < orElse (maxReconnectAttempts (config ?s3)) 5"
      using c3 by (simp add: calm_def)
    show ?thesis
      using scheduleReconnect_arms [OF lt, of e] c3 a3 by (simp add: calm_def)
  qed
  show ?thesis
    unfolding handleDisconnect_def Let_def using c3 sched by simp
qed

lemma calm_connectFailed: "calm s \<Longrightarrow> calm (connectFailed e who m s)"
proof -
  assume c: "calm s"
  let ?s1 = "setState e ERROR s"
  let ?s2 = "?s1\<lparr> connectLog := connectLog ?s1 @ [(who, Some m)] \<rparr>"
  have c1: "calm ?s1" using c by (rule calm_setState) simp
  have "view ?s2 = view ?s1" by (simp add: view_defs)
  then have c2: "calm ?s2" using c1 by (rule calm_frame)
  have c3: "calm (logError ''Reconnection failed:'' ?s2)"
    using c2 by (rule calm_frame [rotated]) simp
  show ?thesis
    unfolding connectFailed_def Let_def
    using c2 c3 by (cases who) (simp_all add: calm_handleDisconnect)
qed

lemma calm_rejectConnect: "calm s \<Longrightarrow> calm (rejectConnect e k m s)"
proof -
  assume g: "calm s"
  have "calm (x\<lparr> sockets := v \<rparr>) = calm x" for x v
    by (simp add: calm_def gaveUp_def)
  then show ?thesis
    using g unfolding rejectConnect_def
    by (auto split: option.splits intro!: calm_connectFailed)
qed

lemma calm_createConnection: "calm s \<Longrightarrow> calm (createConnection e who s)"
proof -
  assume g: "calm s"
  have "view (setTimer t d (x\<lparr> ws := a, sockets := b \<rparr>)) = view x" for t d x a b
    by (simp add: view_defs setTimer_def)
  then show ?thesis
    using g unfolding createConnection_def Let_def
    by (auto intro: calm_frame calm_connectFailed)
qed

lemma calm_connect: "calm s \<Longrightarrow> calm (connect e who s)"
proof (cases "state s = CONNECTED \<or> state s = CONNECTING")
  case True
  assume "calm s"
  then show ?thesis using True by (simp add: connect_def)
next
  case False
  assume g: "calm s"
  let ?s1 = "setState e CONNECTING s"
  have "calm ?s1" using g by (rule calm_setState) simp
  then have "calm (?s1\<lparr> reconnectAttempts := 0 \<rparr>)" by (simp add: calm_def gaveUp_def)
  then show ?thesis using False by (simp add: connect_def calm_createConnection)
qed

lemma calm_disconnect: "calm s \<Longrightarrow> calm (disconnect e s)"
proof (cases "state s = DISCONNECTED")
  case True
  assume "calm s"
  then show ?thesis using True by (simp add: disconnect_def)
next
  case False
  assume g: "calm s"
  let ?s1 = "setState e DISCONNECTING s"
  have c1: "calm ?s1" using g by (rule calm_setState) simp
  have fin: "calm (setState e DISCONNECTED x)" if "view x = view ?s1" for x
    using calm_frame [OF that c1] by (rule calm_setState) simp
  let ?s3 = "rejectAllPending ''Transport disconnected'' (clearTimers ?s1)"
  have t3: "view ?s3 = view ?s1" by simp
  have upd: "view (x\<lparr> sockets := v \<rparr>) = view x" "view (x\<lparr> ws := u \<rparr>) = view x" for x v u
    by (simp_all add: view_defs)
  show ?thesis
    using False unfolding disconnect_def Let_def
    by (auto simp: upd t3 split: option.splits intro!: fin)
qed

lemma calm_onOpen: "calm s \<Longrightarrow> calm (onOpen e k s)"
proof -
  assume g: "calm s"
  let ?s1 = "clearTimer (ConnectTimer k) (setReadyState k 1 s)"
  let ?s2 = "setState e CONNECTED ?s1"
  have g1: "calm ?s1" using g by (rule calm_frame [rotated]) simp
  have "view (?s2\<lparr> reconnectAttempts := 0 \<rparr>)
          = (CONNECTED, fst (snd (view ?s2)), 0, config ?s1, gaveUp ?s1)"
    using view_setState [of e CONNECTED ?s1] by (simp add: view_defs)
  then have g3: "calm (?s2\<lparr> reconnectAttempts := 0 \<rparr>)"
    using g1 by (simp add: calm_def view_def)
  show ?thesis
    unfolding onOpen_def Let_def
    by (rule calm_frame [OF _ g3]) simp
qed

lemma calm_onClose: "calm s \<Longrightarrow> calm (onClose e k s)"
  unfolding onClose_def
  by (rule calm_handleDisconnect) (erule calm_frame [rotated], simp)

lemma calm_errorListener: "calm s \<Longrightarrow> calm (fst (errorListener e k s))"
  unfolding errorListener_def Let_def
  by (simp, erule calm_frame [rotated], simp)

lemma calm_onError: "calm s \<Longrightarrow> calm (onError e k s)"
  using calm_errorListener [of s e k] unfolding onError_def
  by (auto split: prod.splits option.splits intro: calm_rejectConnect)

lemma calm_onErrorClose: "calm s \<Longrightarrow> calm (onErrorClose e k s)"
  using calm_errorListener [of s e k] unfolding onErrorClose_def
  by (auto split: prod.splits option.splits
           intro!: calm_rejectConnect calm_onClose calm_onError)

lemma calm_onConnectTimeout: "calm s \<Longrightarrow> calm (onConnectTimeout e k s)"
proof -
  assume g: "calm s"
  have "calm (case ws s of None \<Rightarrow> s | Some j \<Rightarrow> ws_close j s)"
    using g by (auto split: option.splits elim: calm_frame [rotated])
  then show ?thesis unfolding onConnectTimeout_def Let_def by (rule calm_rejectConnect)
qed

lemma calm_fire: "calm s \<Longrightarrow> calm (fire e t s)"
proof -
  assume g: "calm s"
  have c: "calm (clearTimer t s)" using g by (rule calm_frame [rotated]) simp
  show ?thesis
    unfolding fire_def Let_def
    using g c
    by (auto split: option.splits timer.splits
             intro: calm_onConnectTimeout calm_connect
             elim: calm_frame [rotated])
qed

lemma calm_step: "calm s \<Longrightarrow> calm (step e i s)"
  by (cases i)
     (auto intro: calm_connect calm_disconnect calm_onOpen calm_onClose calm_onError
                 calm_onErrorClose calm_fire
           elim: calm_frame [rotated])

lemma calm_run: "calm s \<Longrightarrow> calm (run evs s)"
proof (induction evs arbitrary: s)
  case Nil
  then show ?case by simp
next
  case (Cons a evs)
  then show ?case by (cases a) (simp add: calm_step)
qed

lemma close_while_connected:
  assumes "calm s" and "state s = CONNECTED" and "reconnect (config s)"
  shows "state (onClose e k s) = DISCONNECTED
         \<and> reconnectAttempts (onClose e k s) = 1
         \<and> (\<exists>n. reconnectTimer (onClose e k s) = Some n
                \<and> map_of (timers (onClose e k s)) (ReconnectTimer n)
                    = Some (now e + orElse (reconnectInterval (config s)) 5000))"
proof -
  let ?s0 = "clearTimer (ConnectTimer k) (setReadyState k 3 s)"
  let ?s1 = "clearTimers ?s0"
  let ?s2 = "setState e DISCONNECTED ?s1"
  let ?s3 = "rejectAllPending ''Connection lost'' ?s2"
  have t1: "view ?s1 = view s" by simp
  have t3: "view ?s3 = view ?s2" by simp
  have f1: "state ?s1 = CONNECTED" using t1 assms(2) by (simp add: view_def)
  have f3: "state ?s3 = DISCONNECTED" "reconnectAttempts ?s3 = 0" "config ?s3 = config s"
    using t3 t1 view_setState [of e DISCONNECTED ?s1] assms(1,2)
    by (simp_all add: view_def calm_def)
  have lt: "reconnectAttempts ?s3 < orElse (maxReconnectAttempts (config ?s3)) 5"
    using f3 assms(1) by (simp add: calm_def)
  have eq: "onClose e k s = scheduleReconnect e ?s3"
    unfolding onClose_def handleDisconnect_def Let_def using f1 f3 assms(3) by simp
  show ?thesis
    unfolding eq using scheduleReconnect_arms [OF lt, of e] f3 by auto
qed


lemma calm_newSystem:
  "0 < orElse (nullish (user_maxReconnectAttempts u) 5) 5 \<Longrightarrow> calm (newSystem u inBrowser)"
  by (simp add: calm_def newSystem_def gaveUp_def)


lemma walk_frame: "view s' = view s \<Longrightarrow> walk s \<Longrightarrow> walk s'"
  using walk_tv [of s' s] by simp

lemma walk_scheduleReconnect:
  assumes "walk s" and "reconnectAttempts s < orElse (maxReconnectAttempts (config s)) 5"
  shows "walk (scheduleReconnect e s) \<and> state (scheduleReconnect e s) = state s"
  using assms by (simp add: scheduleReconnect_def Let_def walk_def setTimer_def)

lemma walk_handleDisconnect:
  assumes "walk s" and "state s \<noteq> DISCONNECTING" and "calm s"
  shows "walk (handleDisconnect e s) \<and> state (handleDisconnect e s) = DISCONNECTED"
proof -
  let ?s1 = "clearTimers s"
  let ?s2 = "setState e DISCONNECTED ?s1"
  let ?s3 = "rejectAllPending ''Connection lost'' ?s2"
  have s1: "walk ?s1" "state ?s1 = state s"
    using assms(1) walk_tv [of ?s1 s] view_state [of ?s1 s] by simp_all
  have "state ?s1 = DISCONNECTED \<or> allowedMove (state ?s1) DISCONNECTED"
    by (simp add: allowedMove_def)
  then have s2: "walk ?s2" by (rule walk_setState [OF s1(1)])
  have t3: "view ?s3 = view ?s2" by simp
  have s3: "walk ?s3" "state ?s3 = DISCONNECTED"
    using s2 walk_tv [of ?s3 ?s2] view_state [of ?s3 ?s2] by simp_all
  have a3: "reconnectAttempts ?s3 = reconnectAttempts s" "config ?s3 = config s"
    using t3 view_setState [of e DISCONNECTED ?s1] view_clearTimers [of s]
    by (simp_all add: view_def)
  have sched: "walk (scheduleReconnect e ?s3) \<and> state (scheduleReconnect e ?s3) = DISCONNECTED"
    if "state ?s1 = CONNECTED"
  proof -
    have "state s = CONNECTED" using that s1 by simp
    then have lt: "reconnectAttempts ?s3 < orElse (maxReconnectAttempts (config ?s3)) 5"
      using assms(3) a3 by (simp add: calm_def)
    show ?thesis using walk_scheduleReconnect [OF s3(1) lt, of e] s3(2) by simp
  qed
  show ?thesis
    unfolding handleDisconnect_def Let_def using s3 sched by simp
qed

lemma walk_connectFailed:
  assumes "walk s" and "state s = CONNECTING" and "calm s"
  shows "walk (connectFailed e who m s)
         \<and> (state (connectFailed e who m s) = DISCONNECTED \<or> state (connectFailed e who m s) = ERROR)"
proof -
  let ?s1 = "setState e ERROR s"
  let ?s2 = "?s1\<lparr> connectLog := connectLog ?s1 @ [(who, Some m)] \<rparr>"
  have "state s = ERROR \<or> allowedMove (state s) ERROR"
    using assms(2) by (simp add: allowedMove_def)
  then have s1: "walk ?s1" by (rule walk_setState [OF assms(1)])
  have c1: "calm ?s1" using assms(3) by (rule calm_setState) simp
  have t2: "view ?s2 = view ?s1" by (simp add: view_defs)
  have s2: "walk ?s2" "state ?s2 = ERROR" "calm ?s2"
    using s1 walk_tv [OF t2] calm_tv [OF t2] c1 by simp_all
  show ?thesis
  proof (cases who)
    case Explicit
    then show ?thesis using s2 by (simp add: connectFailed_def Let_def)
  next
    case Reconnect
    let ?s3 = "logError ''Reconnection failed:'' ?s2"
    have s3: "walk ?s3" "state ?s3 \<noteq> DISCONNECTING" "calm ?s3"
      using s2 walk_tv [of ?s3 ?s2] view_state [of ?s3 ?s2] calm_tv [of ?s3 ?s2] by simp_all
    show ?thesis
      using Reconnect walk_handleDisconnect [OF s3]
      by (simp add: connectFailed_def Let_def)
  qed
qed

lemma good_frame: "view s' = view s \<Longrightarrow> good s \<Longrightarrow> good s'"
  using walk_tv [of s' s] view_state [of s' s] by (simp add: good_def)

lemma good_handleDisconnect: "good s \<Longrightarrow> calm s \<Longrightarrow> good (handleDisconnect e s)"
  using walk_handleDisconnect [of s e] by (auto simp: good_def)

lemma good_connectFailed:
  "good s \<Longrightarrow> calm s \<Longrightarrow> state s = CONNECTING \<Longrightarrow> good (connectFailed e who m s)"
  using walk_connectFailed [of s e who m] by (auto simp: good_def)

lemma good_rejectConnect:
  assumes "good s" and "calm s" and "state s = CONNECTING"
  shows "good (rejectConnect e k m s)"
proof -
  have "good (x\<lparr> sockets := v \<rparr>) = good x" "calm (x\<lparr> sockets := v \<rparr>) = calm x" for x v
    by (simp_all add: good_def walk_def calm_def gaveUp_def)
  then show ?thesis
    using assms unfolding rejectConnect_def
    by (auto split: option.splits intro!: good_connectFailed)
qed

lemma good_createConnection:
  assumes "good s" and "calm s" and "state s = CONNECTING"
  shows "good (createConnection e who s)"
proof -
  have "view (setTimer t d (x\<lparr> ws := a, sockets := b \<rparr>)) = view x" for t d x a b
    by (simp add: view_defs setTimer_def)
  then show ?thesis
    using assms unfolding createConnection_def Let_def
    by (auto intro: good_frame good_connectFailed)
qed

lemma good_connect: "good s \<Longrightarrow> calm s \<Longrightarrow> good (connect e who s)"
proof (cases "state s = CONNECTED \<or> state s = CONNECTING")
  case True
  assume "good s"
  then show ?thesis using True by (simp add: connect_def)
next
  case False
  assume g: "good s" and c: "calm s"
  let ?s1 = "setState e CONNECTING s"
  have "state s = CONNECTING \<or> allowedMove (state s) CONNECTING"
    using False g by (cases "state s") (simp_all add: allowedMove_def good_def)
  then have "walk ?s1" using g walk_setState by (simp add: good_def)
  then have "good ?s1" by (simp add: good_def)
  then have g1: "good (?s1\<lparr> reconnectAttempts := 0 \<rparr>)" by (simp add: good_def walk_def)
  have "calm ?s1" using c by (rule calm_setState) simp
  then have c1: "calm (?s1\<lparr> reconnectAttempts := 0 \<rparr>)" by (simp add: calm_def gaveUp_def)
  show ?thesis
    using False good_createConnection [OF g1 c1] by (simp add: connect_def)
qed

lemma good_disconnect: "good s \<Longrightarrow> good (disconnect e s)"
proof (cases "state s = DISCONNECTED")
  case True
  assume "good s"
  then show ?thesis using True by (simp add: disconnect_def)
next
  case False
  assume g: "good s"
  let ?s1 = "setState e DISCONNECTING s"
  have "state s = DISCONNECTING \<or> allowedMove (state s) DISCONNECTING"
    using False g by (cases "state s") (simp_all add: allowedMove_def good_def)
  then have w1: "walk ?s1" using g walk_setState by (simp add: good_def)
  have fin: "good (setState e DISCONNECTED x)" if "view x = view ?s1" for x
  proof -
    have "walk x" "state x = DISCONNECTING"
      using that w1 walk_tv [of x ?s1] view_state [of x ?s1] by simp_all
    then have "walk (setState e DISCONNECTED x)"
      by (intro walk_setState) (simp_all add: allowedMove_def)
    then show ?thesis by (simp add: good_def)
  qed
  let ?s3 = "rejectAllPending ''Transport disconnected'' (clearTimers ?s1)"
  have t3: "view ?s3 = view ?s1" by simp
  have upd: "view (x\<lparr> sockets := v \<rparr>) = view x" "view (x\<lparr> ws := u \<rparr>) = view x" for x v u
    by (simp_all add: view_defs)
  show ?thesis
    using False unfolding disconnect_def Let_def
    by (auto simp: upd t3 split: option.splits intro!: fin)
qed

lemma good_onOpen: "good s \<Longrightarrow> state s = CONNECTING \<Longrightarrow> good (onOpen e k s)"
proof -
  assume g: "good s" and st: "state s = CONNECTING"
  let ?s1 = "clearTimer (ConnectTimer k) (setReadyState k 1 s)"
  have t1: "view ?s1 = view s" by simp
  have g1: "good ?s1" using g by (rule good_frame [rotated]) simp
  have "state ?s1 = CONNECTING" using view_state [OF t1] st by simp
  then have "state ?s1 = CONNECTED \<or> allowedMove (state ?s1) CONNECTED"
    by (simp add: allowedMove_def)
  then have "walk (setState e CONNECTED ?s1)" using g1 walk_setState by (simp add: good_def)
  then have g2: "good (setState e CONNECTED ?s1)" by (simp add: good_def)
  have g3: "good ((setState e CONNECTED ?s1)\<lparr> reconnectAttempts := 0 \<rparr>)"
    using g2 by (simp add: good_def walk_def)
  show ?thesis
    unfolding onOpen_def Let_def
    by (rule good_frame [OF _ g3]) simp
qed

lemma good_onClose: "good s \<Longrightarrow> calm s \<Longrightarrow> good (onClose e k s)"
  unfolding onClose_def
  by (rule good_handleDisconnect) (erule good_frame [rotated] calm_frame [rotated], simp)+

lemma errorListener_view:
  "view (fst (errorListener e k s)) = view s"
  "snd (errorListener e k s) \<noteq> None \<longleftrightarrow> state s = CONNECTING"
proof -
  let ?s3 = "emit e EV_ERROR (logError ''WebSocket error:'' (clearTimer (ConnectTimer k) s))"
  have t: "view ?s3 = view s" by simp
  show "view (fst (errorListener e k s)) = view s"
    unfolding errorListener_def Let_def using t by simp
  show "snd (errorListener e k s) \<noteq> None \<longleftrightarrow> state s = CONNECTING"
    unfolding errorListener_def Let_def using view_state [OF t] by simp
qed

lemma good_onError: "good s \<Longrightarrow> calm s \<Longrightarrow> good (onError e k s)"
proof -
  assume g: "good s" and c: "calm s"
  obtain s1 r where el: "errorListener e k s = (s1, r)" by (cases "errorListener e k s")
  have t: "view s1 = view s" and r: "r \<noteq> None \<longleftrightarrow> state s = CONNECTING"
    using errorListener_view [of e k s] el by simp_all
  have g1: "good s1" "calm s1" "state s1 = state s"
    using good_frame [OF t g] calm_frame [OF t c] view_state [OF t] by simp_all
  show ?thesis
    unfolding onError_def el using g1 r
    by (auto split: option.splits intro: good_rejectConnect)
qed

lemma good_onErrorClose:
  assumes "good s" and "calm s" and "browser (config s) \<or> state s \<noteq> CONNECTING"
  shows "good (onErrorClose e k s)"
proof (cases "browser (config s)")
  case True
  then show ?thesis
    unfolding onErrorClose_def
    using good_onClose [OF good_onError [OF assms(1,2)] calm_onError [OF assms(2)]] by simp
next
  case False
  obtain s1 r where el: "errorListener e k s = (s1, r)" by (cases "errorListener e k s")
  have t: "view s1 = view s" and r: "r \<noteq> None \<longleftrightarrow> state s = CONNECTING"
    using errorListener_view [of e k s] el by simp_all
  have g1: "good s1" "calm s1"
    using good_frame [OF t assms(1)] calm_frame [OF t assms(2)] by simp_all
  have "r = None" using r assms(3) False by auto
  then show ?thesis
    unfolding onErrorClose_def el using False good_onClose [OF g1] by simp
qed

lemma good_onConnectTimeout:
  assumes "good s" and "calm s" and "state s = CONNECTING"
  shows "good (onConnectTimeout e k s)"
proof -
  let ?s1 = "case ws s of None \<Rightarrow> s | Some j \<Rightarrow> ws_close j s"
  have t: "view ?s1 = view s" by (simp split: option.splits)
  show ?thesis
    unfolding onConnectTimeout_def Let_def
    using good_frame [OF t assms(1)] calm_frame [OF t assms(2)] view_state [OF t] assms(3)
    by (intro good_rejectConnect) simp_all
qed

lemma good_fire:
  assumes "good s" and "calm s" and "timely (Fire t) s"
  shows "good (fire e t s)"
proof -
  have v: "view (clearTimer t s) = view s" by simp
  have c: "good (clearTimer t s)" "calm (clearTimer t s)" "state (clearTimer t s) = state s"
    using good_frame [OF v assms(1)] calm_frame [OF v assms(2)] view_state [OF v] by simp_all
  show ?thesis
    unfolding fire_def Let_def
    using assms c
    by (auto simp: timely_def split: option.splits timer.splits
             intro: good_onConnectTimeout good_connect
             elim: good_frame [rotated])
qed

lemma good_step: "good s \<Longrightarrow> calm s \<Longrightarrow> timely i s \<Longrightarrow> good (step e i s)"
proof (cases i)
  case (Fire t)
  assume "good s" "calm s" "timely i s"
  then show ?thesis using Fire good_fire [of s t e] by simp
next
  case (SockOpen k)
  assume "good s" "calm s" "timely i s"
  then show ?thesis using SockOpen good_onOpen [of s e k] by (simp add: timely_def)
next
  case (SockErrorClose k)
  assume "good s" "calm s" "timely i s"
  then show ?thesis using SockErrorClose good_onErrorClose [of s e k] by (simp add: timely_def)
qed (auto intro: good_connect good_disconnect good_onClose good_onError
          elim: good_frame [rotated])

lemma good_run: "good s \<Longrightarrow> calm s \<Longrightarrow> orderly evs s \<Longrightarrow> good (run evs s)"
proof (induction evs arbitrary: s)
  case Nil
  then show ?case by simp
next
  case (Cons a evs)
  then show ?case by (cases a) (simp add: good_step calm_step)
qed

lemma good_newSystem: "good (newSystem u b)"
  by (simp add: good_def walk_def newSystem_def)

lemma follows_allowed:
  "follows x ts = Some y \<Longrightarrow> (a, c) \<in> set ts \<Longrightarrow> allowedMove a c"
  by (induction ts arbitrary: x) (auto split: if_splits)




text \<open>
  Whenever the maximum is positive and reconnection is enabled, in every execution: the
  attempt counter is 0 while connected, \<open>scheduleReconnect\<close> never gives up, and a close that
  finds the transport connected leaves it \<open>DISCONNECTED\<close> with the counter at 1 and a reconnect
  timer armed, however many disconnects came before.
\<close>

lemma reconnect_never_gives_up:
  assumes "0 < orElse (nullish (user_maxReconnectAttempts u) 5) 5"
  shows "\<not> gaveUp (run evs (newSystem u inBrowser))
         \<and> (state (run evs (newSystem u inBrowser)) = CONNECTED \<longrightarrow>
              reconnectAttempts (run evs (newSystem u inBrowser)) = 0)
         \<and> (state (run evs (newSystem u inBrowser)) = CONNECTED
              \<and> reconnect (config (run evs (newSystem u inBrowser)))
              \<and> hears (run evs (newSystem u inBrowser)) k \<longrightarrow>
              state (step e (SockClose k) (run evs (newSystem u inBrowser))) = DISCONNECTED
              \<and> reconnectAttempts (step e (SockClose k) (run evs (newSystem u inBrowser))) = 1
              \<and> reconnectTimer (step e (SockClose k) (run evs (newSystem u inBrowser))) \<noteq> None)"
proof -
  let ?s = "run evs (newSystem u inBrowser)"
  have c: "calm ?s" by (rule calm_run [OF calm_newSystem [OF assms]])
  have "state (step e (SockClose k) ?s) = DISCONNECTED
        \<and> reconnectAttempts (step e (SockClose k) ?s) = 1
        \<and> reconnectTimer (step e (SockClose k) ?s) \<noteq> None"
    if "state ?s = CONNECTED" "reconnect (config ?s)" "hears ?s k"
    using close_while_connected [OF c that(1,2), of e k] that(3) by auto
  then show ?thesis using c by (auto simp: calm_def)
qed

text \<open>
  C5.  The code at the claim's scenario: \<open>maxReconnectAttempts = 10\<close>, reconnection enabled,
  and eleven consecutive unexpected disconnects, each of the first ten followed by the
  reconnect timer firing and the new socket opening.  \<open>connect\<close> resets the attempt counter, so
  the eleventh disconnect leaves the transport \<open>DISCONNECTED\<close> (not \<open>ERROR\<close>) with the counter at
  1, nothing logged, and a further reconnect scheduled.  And when a reconnect attempt fails
  (the new socket reports an error), the transport ends \<open>DISCONNECTED\<close> with no timer armed
  after that single failure.
\<close>

theorem eleven_disconnects:
  "state (run (cycles 0 10 @ [(env0 200000, SockClose 10)]) connected0) = DISCONNECTED
   \<and> reconnectAttempts (run (cycles 0 10 @ [(env0 200000, SockClose 10)]) connected0) = 1
   \<and> reconnectTimer (run (cycles 0 10 @ [(env0 200000, SockClose 10)]) connected0) = Some 21
   \<and> timers (run (cycles 0 10 @ [(env0 200000, SockClose 10)]) connected0)
        = [(ReconnectTimer 21, 205000)]
   \<and> errorLog (run (cycles 0 10 @ [(env0 200000, SockClose 10)]) connected0) = []
   \<and> state (run [(env0 20, SockClose 0), (env0 5020, Fire (ReconnectTimer 1)),
                  (env0 5030, SockError 1)] connected0) = DISCONNECTED
   \<and> timers (run [(env0 20, SockClose 0), (env0 5020, Fire (ReconnectTimer 1)),
                   (env0 5030, SockError 1)] connected0) = []
   \<and> transitions (emitted (run [(env0 20, SockClose 0), (env0 5020, Fire (ReconnectTimer 1)),
                   (env0 5030, SockError 1)] connected0))
        = [(DISCONNECTED, CONNECTING), (CONNECTING, CONNECTED), (CONNECTED, DISCONNECTED),
           (DISCONNECTED, CONNECTING), (CONNECTING, ERROR), (ERROR, DISCONNECTED)]"
  by code_simp

section \<open>Properties of the pending requests\<close>

lemma quiet_refl [simp]: "quiet s s"
  by (simp add: quiet_def)

lemma quiet_trans: "quiet s s' \<Longrightarrow> quiet s' s'' \<Longrightarrow> quiet s s''"
  by (simp add: quiet_def)

lemma once_quiet: "quiet s s' \<Longrightarrow> once s \<Longrightarrow> once s'"
  unfolding quiet_def once_def rview_def
  by (elim conjE, simp) fastforce

lemma armed_setTimer: "armed (setTimer t d s) = insert t (armed s)"
  by (simp add: armed_def setTimer_def dom_update)

lemma armed_clearTimer: "armed (clearTimer t s) = armed s - {t}"
  by (auto simp: armed_def clearTimer_def AList.delete_eq image_iff)

lemma reqArmed_setTimer_other:
  "(\<And>p k. t \<noteq> RequestTimer p k) \<Longrightarrow> reqArmed (setTimer t d s) = reqArmed s"
  by (auto simp: reqArmed_def armed_setTimer)

lemma reqArmed_clearTimer_other:
  "(\<And>p k. t \<noteq> RequestTimer p k) \<Longrightarrow> reqArmed (clearTimer t s) = reqArmed s"
  by (auto simp: reqArmed_def armed_clearTimer)

lemma reqArmed_setTimer_req:
  "reqArmed (setTimer (RequestTimer p k) d s) = insert (p, k) (reqArmed s)"
  by (auto simp: reqArmed_def armed_setTimer)

lemma reqArmed_clearTimer_req:
  "reqArmed (clearTimer (RequestTimer p k) s) = reqArmed s - {(p, k)}"
  by (auto simp: reqArmed_def armed_clearTimer)

lemmas rdefs = quiet_def rview_def reqArmed_def armed_def

lemma quiet_logError [simp]: "quiet s (logError m s)"
  by (simp add: rdefs logError_def)

lemma quiet_setReadyState [simp]: "quiet s (setReadyState k r s)"
  by (simp add: rdefs setReadyState_def split: option.splits)

lemma quiet_ws_send: "ws_send e k f s = Inr s' \<Longrightarrow> quiet s s'"
  by (auto simp: rdefs ws_send_def split: if_splits)

lemma quiet_ws_close [simp]: "quiet s (ws_close k s)"
  by (simp add: rdefs ws_close_def Let_def setReadyState_def split: option.splits)

lemma quiet_clearTimer_other:
  "(\<And>p k. t \<noteq> RequestTimer p k) \<Longrightarrow> quiet s (clearTimer t s)"
  using reqArmed_clearTimer_other [of t s]
  by (simp add: quiet_def rview_def) (simp add: clearTimer_def)

lemma quiet_setTimer_other:
  "(\<And>p k. t \<noteq> RequestTimer p k) \<Longrightarrow> quiet s (setTimer t d s)"
  using reqArmed_setTimer_other [of t d s]
  by (simp add: quiet_def rview_def) (simp add: setTimer_def)

lemma quiet_cleanup [simp]: "quiet s (cleanup w s)"
proof -
  have "quiet s (clearTimer (WaitTimer w) s)" by (rule quiet_clearTimer_other) simp
  then show ?thesis by (simp add: rdefs cleanup_def)
qed

lemma quiet_settleWait [simp]: "quiet s (settleWait w out s)"
  by (simp add: rdefs settleWait_def split: option.splits)

lemma quiet_deliver [simp]: "quiet s (deliver mail h s)"
proof -
  have a: "quiet s (settleWait w out (cleanup w s))" for w out
    by (rule quiet_trans [OF quiet_cleanup quiet_settleWait])
  have b: "quiet s (s\<lparr> received := r \<rparr>)" for r by (simp add: rdefs)
  show ?thesis
    unfolding deliver_def
    by (simp add: a b split: mail_handler.splits option.splits sum.splits bool.splits)
qed

lemma quiet_fold_deliver [simp]: "quiet s (fold (deliver mail) hs s)"
proof (induction hs arbitrary: s)
  case Nil
  then show ?case by simp
next
  case (Cons h hs)
  show ?case
    using quiet_trans [OF quiet_deliver [of s mail h] Cons.IH [of "deliver mail h s"]] by simp
qed

lemma quiet_emitMail [simp]: "quiet s (emitMail mail s)"
  by (simp add: emitMail_def)

lemma quiet_handleMailMessage [simp]: "quiet s (handleMailMessage e m s)"
proof -
  have a: "quiet s (s\<lparr> userEmail := u, defaultFrom := d \<rparr>)"
    "quiet s (s\<lparr> uiAgentEmail := v \<rparr>)"
    "quiet s (s\<lparr> userEmail := u, defaultFrom := d, uiAgentEmail := v \<rparr>)" for u d v
    by (simp_all add: rdefs)
  show ?thesis
    unfolding handleMailMessage_def Let_def by (simp add: a)
qed

lemma quiet_sendIdentity [simp]: "quiet s (sendIdentity e s)"
  unfolding sendIdentity_def Let_def
  by (auto split: option.splits sum.splits dest: quiet_ws_send)

lemma quiet_update_emitted: "quiet s (s\<lparr> emitted := evs \<rparr>)"
  by (simp add: rdefs)

lemma quiet_emit [simp]: "quiet s (emit e ev s)"
proof -
  let ?s1 = "s\<lparr> emitted := emitted s @ [ev] \<rparr>"
  have a: "quiet s ?s1" by (rule quiet_update_emitted)
  have b: "quiet s (handleMailMessage e m ?s1)" for m
    by (rule quiet_trans [OF a quiet_handleMailMessage])
  have c: "quiet s (sendIdentity e ?s1)"
    by (rule quiet_trans [OF a quiet_sendIdentity])
  show ?thesis
    unfolding emit_def Let_def
    using a b c by (cases ev) simp_all
qed

lemma quiet_update_state: "quiet s (s\<lparr> state := st \<rparr>)"
  by (simp add: rdefs)

lemma quiet_setState [simp]: "quiet s (setState e st s)"
proof -
  let ?s1 = "s\<lparr> state := st \<rparr>"
  have a: "quiet s ?s1" by (rule quiet_update_state)
  have b: "quiet s (emit e ev ?s1)" for ev by (rule quiet_trans [OF a quiet_emit])
  have c: "quiet s (emit e ev' (emit e ev ?s1))" for ev ev'
    by (rule quiet_trans [OF b quiet_emit])
  show ?thesis
    unfolding setState_def Let_def using a b c by auto
qed

lemma quiet_clearTimers [simp]: "quiet s (clearTimers s)"
proof -
  have a: "quiet x ((clearTimer (ReconnectTimer n) x)\<lparr> reconnectTimer := None \<rparr>)" for x n
    using quiet_clearTimer_other [of "ReconnectTimer n" x] by (simp add: rdefs)
  have b: "quiet x ((clearTimer (HeartbeatTimer n) x)\<lparr> heartbeatTimer := None \<rparr>)" for x n
    using quiet_clearTimer_other [of "HeartbeatTimer n" x] by (simp add: rdefs)
  show ?thesis
    unfolding clearTimers_def Let_def
    by (auto split: option.splits intro: a b quiet_trans [OF a b])
qed

lemma quiet_startHeartbeat [simp]: "quiet s (startHeartbeat e s)"
  using quiet_setTimer_other [of "HeartbeatTimer (fresh s)" s]
  unfolding startHeartbeat_def Let_def by (simp add: rdefs)

lemma quiet_scheduleReconnect [simp]: "quiet s (scheduleReconnect e s)"
proof -
  have a: "quiet s (setState e ERROR (logError m s))" for m
    by (rule quiet_trans [OF quiet_logError quiet_setState])
  have b: "quiet s ((setTimer (ReconnectTimer (fresh s)) d s)
              \<lparr> reconnectAttempts := r, reconnectTimer := t, fresh := Suc (fresh s) \<rparr>)" for d r t
    using quiet_setTimer_other [of "ReconnectTimer (fresh s)" s d] by (simp add: rdefs)
  show ?thesis
    unfolding scheduleReconnect_def Let_def by (simp add: a b)
qed

lemma quiet_resolveConnect [simp]: "quiet s (resolveConnect k s)"
  unfolding resolveConnect_def by (simp add: rdefs split: option.splits)

lemma quiet_waitTimedOut [simp]: "quiet s (waitTimedOut w s)"
  unfolding waitTimedOut_def
  by (simp split: option.splits add: quiet_trans [OF quiet_cleanup quiet_settleWait])

lemma quiet_onHeartbeat [simp]: "quiet s (onHeartbeat e n s)"
proof -
  let ?s1 = "setTimer (HeartbeatTimer n) (now e + orElse (heartbeatInterval (config s)) 30000) s"
  have a: "quiet s ?s1" by (rule quiet_setTimer_other) simp
  have b: "quiet s (?s1\<lparr> wire := v \<rparr>)" for v using a by (simp add: rdefs)
  have c: "quiet s (logError m ?s1)" for m by (rule quiet_trans [OF a quiet_logError])
  have d: "quiet s s2" if "ws_send e k f ?s1 = Inr s2" for k f s2
    by (rule quiet_trans [OF a quiet_ws_send [OF that]])
  show ?thesis
    unfolding onHeartbeat_def Let_def
    by (auto simp: a b c split: option.splits sum.splits dest: d)
qed

lemma quiet_sendMail [simp]: "quiet s (snd (sendMail e m s))"
  unfolding sendMail_def
  by (auto split: option.splits sum.splits dest: quiet_ws_send)

lemma quiet_sendMailTo [simp]: "quiet s (snd (sendMailTo e to subj bdy opts s))"
proof -
  let ?s1 = "(setTimer (MailDeadline (fresh s)) (now e + opt_timeout opts) s)\<lparr> fresh := Suc (fresh s) \<rparr>"
  have a: "quiet s ?s1"
    using quiet_setTimer_other [of "MailDeadline (fresh s)" s] by (simp add: rdefs)
  have b: "quiet s (snd (sendMail e m ?s1))" for m
    by (rule quiet_trans [OF a quiet_sendMail])
  show ?thesis unfolding sendMailTo_def Let_def by (simp add: b)
qed

lemma sendAndWait_shape:
  "\<exists>d v hs mo.
     sendAndWait e to subj bdy opts s =
       (case sendMailTo e to subj bdy mo
               ((setTimer (WaitTimer (fresh s)) d s)
                  \<lparr> waits := v, mailHandlers := hs, fresh := Suc (fresh s) \<rparr>) of
          (None, s2) \<Rightarrow>
            s2\<lparr> waits := map (\<lambda>(n, wt). if n = fresh s then (n, wt\<lparr> w_following := True \<rparr>)
                                        else (n, wt)) (waits s2) \<rparr>
        | (Some err, s2) \<Rightarrow> s2\<lparr> waitSettled := waitSettled s2 @ [(fresh s, Rejected err)] \<rparr>)"
  unfolding sendAndWait_def Let_def by (simp del: split_paired_Ex) blast

lemma quiet_sendAndWait [simp]: "quiet s (sendAndWait e to subj bdy opts s)"
proof -
  obtain d v hs mo where sh:
    "sendAndWait e to subj bdy opts s =
       (case sendMailTo e to subj bdy mo
               ((setTimer (WaitTimer (fresh s)) d s)
                  \<lparr> waits := v, mailHandlers := hs, fresh := Suc (fresh s) \<rparr>) of
          (None, s2) \<Rightarrow>
            s2\<lparr> waits := map (\<lambda>(n, wt). if n = fresh s then (n, wt\<lparr> w_following := True \<rparr>)
                                        else (n, wt)) (waits s2) \<rparr>
        | (Some err, s2) \<Rightarrow> s2\<lparr> waitSettled := waitSettled s2 @ [(fresh s, Rejected err)] \<rparr>)"
    using sendAndWait_shape [of e to subj bdy opts s] by blast
  let ?s1 = "(setTimer (WaitTimer (fresh s)) d s)
                  \<lparr> waits := v, mailHandlers := hs, fresh := Suc (fresh s) \<rparr>"
  have a: "quiet s ?s1"
    using quiet_setTimer_other [of "WaitTimer (fresh s)" s d] by (simp add: rdefs)
  have b: "quiet s (snd (sendMailTo e to subj bdy mo ?s1))"
    by (rule quiet_trans [OF a quiet_sendMailTo])
  have c: "quiet s (s2\<lparr> waits := v' \<rparr>)" "quiet s (s2\<lparr> waitSettled := u \<rparr>)"
    if "quiet s s2" for s2 v' u
    using that by (simp_all add: rdefs)
  show ?thesis
    unfolding sh using b
    by (cases "sendMailTo e to subj bdy mo ?s1") (auto split: option.splits intro!: c)
qed

lemma quiet_onMail [simp]: "quiet s (onMail s)"
  unfolding onMail_def Let_def by (simp add: rdefs)

lemma quiet_offMail [simp]: "quiet s (offMail n s)"
  unfolding offMail_def by (simp add: rdefs)

lemma fold_reject:
  "settled (fold (\<lambda>(k, p) s'. settle p out (clearTimer (RequestTimer p k) s')) xs s)
     = settled s @ map (\<lambda>(k, p). (p, out)) xs
   \<and> reqArmed (fold (\<lambda>(k, p) s'. settle p out (clearTimer (RequestTimer p k) s')) xs s)
     = reqArmed s - {(p, k). (k, p) \<in> set xs}
   \<and> pendingRequests (fold (\<lambda>(k, p) s'. settle p out (clearTimer (RequestTimer p k) s')) xs s)
     = pendingRequests s
   \<and> fresh (fold (\<lambda>(k, p) s'. settle p out (clearTimer (RequestTimer p k) s')) xs s) = fresh s"
proof (induction xs arbitrary: s)
  case Nil
  then show ?case by simp
next
  case (Cons x xs)
  obtain k p where x: "x = (k, p)" by (cases x)
  let ?s1 = "settle p out (clearTimer (RequestTimer p k) s)"
  have s1: "settled ?s1 = settled s @ [(p, out)]" "reqArmed ?s1 = reqArmed s - {(p, k)}"
    "pendingRequests ?s1 = pendingRequests s" "fresh ?s1 = fresh s"
    using reqArmed_clearTimer_req [of p k s]
    by (simp_all add: settle_def clearTimer_def reqArmed_def armed_def)
  show ?case
    using Cons.IH [of ?s1] unfolding x by (auto simp: s1)
qed

lemma rejectAllPending_effect:
  "settled (rejectAllPending m s)
     = settled s @ map (\<lambda>(k, p). (p, Rejected m)) (pendingRequests s)
   \<and> reqArmed (rejectAllPending m s) = reqArmed s - {(p, k). (k, p) \<in> set (pendingRequests s)}
   \<and> pendingRequests (rejectAllPending m s) = []
   \<and> fresh (rejectAllPending m s) = fresh s"
  using fold_reject [of "Rejected m" "pendingRequests s" s]
  by (simp add: rejectAllPending_def reqArmed_def armed_def)

lemma once_rejectAllPending:
  assumes "once s"
  shows "once (rejectAllPending m s)"
proof -
  let ?s' = "rejectAllPending m s"
  note eff = rejectAllPending_effect [of m s]
  have A: "distinct (map fst (settled s))"
    and B: "\<And>p. p \<in> fst ` set (settled s) \<Longrightarrow> p < fresh s \<and> (\<forall>k. (p, k) \<notin> reqArmed s)"
    and C: "\<And>k p. (k, p) \<in> set (pendingRequests s) \<Longrightarrow> (p, k) \<in> reqArmed s"
    and D: "\<And>p k. (p, k) \<in> reqArmed s \<Longrightarrow> p < fresh s"
    and F: "\<And>p k k'. (p, k) \<in> reqArmed s \<Longrightarrow> (p, k') \<in> reqArmed s \<Longrightarrow> k = k'"
    and E: "distinct (map snd (pendingRequests s))"
    using assms unfolding once_def by auto
  have m: "map fst (settled ?s') = map fst (settled s) @ map snd (pendingRequests s)"
    using eff by (simp add: split_def comp_def)
  have disj: "set (map fst (settled s)) \<inter> set (map snd (pendingRequests s)) = {}"
  proof (rule ccontr)
    assume "set (map fst (settled s)) \<inter> set (map snd (pendingRequests s)) \<noteq> {}"
    then obtain p where p: "p \<in> fst ` set (settled s)" "p \<in> snd ` set (pendingRequests s)"
      by auto
    then obtain k where "(k, p) \<in> set (pendingRequests s)" by auto
    then have "(p, k) \<in> reqArmed s" by (rule C)
    then show False using B [OF p(1)] by blast
  qed
  have A': "distinct (map fst (settled ?s'))"
    unfolding m using A E disj by simp
  have B': "p < fresh ?s' \<and> (\<forall>k. (p, k) \<notin> reqArmed ?s')" if "p \<in> fst ` set (settled ?s')" for p
  proof -
    have "p \<in> set (map fst (settled ?s'))" using that by simp
    then consider "p \<in> fst ` set (settled s)" | "p \<in> snd ` set (pendingRequests s)"
      unfolding m by auto
    then show ?thesis
    proof cases
      case 1
      then show ?thesis using B [OF 1] eff by auto
    next
      case 2
      then obtain k where k: "(k, p) \<in> set (pendingRequests s)" by auto
      have ar: "(p, k) \<in> reqArmed s" using k by (rule C)
      have "(p, k') \<notin> reqArmed ?s'" for k'
      proof
        assume "(p, k') \<in> reqArmed ?s'"
        then have in1: "(p, k') \<in> reqArmed s" and out: "(k', p) \<notin> set (pendingRequests s)"
          using eff by auto
        have "k' = k" using F [OF in1 ar] .
        then show False using out k by simp
      qed
      then show ?thesis using D [OF ar] eff by simp
    qed
  qed
  have D': "p < fresh ?s'" if "(p, k) \<in> reqArmed ?s'" for p k
    using that eff D by auto
  have F': "k = k'" if "(p, k) \<in> reqArmed ?s'" "(p, k') \<in> reqArmed ?s'" for p k k'
    using that eff F by auto
  show ?thesis
    unfolding once_def using A' B' D' F' eff by auto
qed

lemma once_settle_one:
  assumes "once s"
    and "settled s' = settled s @ [(p, out)]"
    and "p \<notin> fst ` set (settled s)"
    and "p < fresh s'" and "fresh s \<le> fresh s'"
    and "reqArmed s' \<subseteq> reqArmed s"
    and "\<And>k. (p, k) \<notin> reqArmed s'"
    and "set (pendingRequests s') \<subseteq> set (pendingRequests s)"
    and "distinct (map snd (pendingRequests s'))"
    and "\<And>k q. (k, q) \<in> set (pendingRequests s') \<Longrightarrow> (q, k) \<in> reqArmed s'"
  shows "once s'"
proof -
  have A: "distinct (map fst (settled s))"
    and B: "\<And>p. p \<in> fst ` set (settled s) \<Longrightarrow> p < fresh s \<and> (\<forall>k. (p, k) \<notin> reqArmed s)"
    and D: "\<And>p k. (p, k) \<in> reqArmed s \<Longrightarrow> p < fresh s"
    and F: "\<And>p k k'. (p, k) \<in> reqArmed s \<Longrightarrow> (p, k') \<in> reqArmed s \<Longrightarrow> k = k'"
    using assms(1) unfolding once_def by auto
  have A': "distinct (map fst (settled s'))"
    using A assms(2,3) by simp
  have B': "q < fresh s' \<and> (\<forall>k. (q, k) \<notin> reqArmed s')" if "q \<in> fst ` set (settled s')" for q
  proof (cases "q = p")
    case True
    then show ?thesis using assms(4,7) by simp
  next
    case False
    then have "q \<in> fst ` set (settled s)" using that assms(2) by auto
    then show ?thesis using B [of q] assms(5,6) by fastforce
  qed
  have D': "q < fresh s'" if "(q, k) \<in> reqArmed s'" for q k
    using that assms(5,6) D [of q k] by fastforce
  have F': "k = k'" if "(q, k) \<in> reqArmed s'" "(q, k') \<in> reqArmed s'" for q k k'
    using that assms(6) F [of q k k'] by blast
  show ?thesis
    unfolding once_def using A' B' D' F' assms(9,10) by auto
qed

lemma distinct_snd_delete:
  "distinct (map snd al) \<Longrightarrow> distinct (map snd (AList.delete k al))"
  by (simp add: AList.delete_eq distinct_map_filter)

lemma set_delete_subset: "set (AList.delete k al) \<subseteq> set al"
  by (auto simp: AList.delete_eq)

lemma in_delete: "(k', q) \<in> set (AList.delete k al) \<Longrightarrow> k' \<noteq> k \<and> (k', q) \<in> set al"
  by (auto simp: AList.delete_eq)

lemma once_expire:
  assumes "once s" and "(p, k) \<in> reqArmed s"
    and "settled s' = settled s @ [(p, out)]"
    and "reqArmed s' = reqArmed s - {(p, k)}"
    and "pendingRequests s' = AList.delete k (pendingRequests s)"
    and "fresh s' = fresh s"
  shows "once s'"
proof (rule once_settle_one [OF assms(1) assms(3)])
  have B: "\<And>p. p \<in> fst ` set (settled s) \<Longrightarrow> (\<forall>k. (p, k) \<notin> reqArmed s)"
    and C: "\<And>k p. (k, p) \<in> set (pendingRequests s) \<Longrightarrow> (p, k) \<in> reqArmed s"
    and D: "\<And>p k. (p, k) \<in> reqArmed s \<Longrightarrow> p < fresh s"
    and F: "\<And>p k k'. (p, k) \<in> reqArmed s \<Longrightarrow> (p, k') \<in> reqArmed s \<Longrightarrow> k = k'"
    and E: "distinct (map snd (pendingRequests s))"
    using assms(1) unfolding once_def by auto
  show "p \<notin> fst ` set (settled s)" using B assms(2) by blast
  show "p < fresh s'" using D [OF assms(2)] assms(6) by simp
  show "fresh s \<le> fresh s'" using assms(6) by simp
  show "reqArmed s' \<subseteq> reqArmed s" using assms(4) by blast
  show "(p, k') \<notin> reqArmed s'" for k'
    using assms(4) F [OF assms(2), of k'] by auto
  show "set (pendingRequests s') \<subseteq> set (pendingRequests s)"
    unfolding assms(5) by (rule set_delete_subset)
  show "distinct (map snd (pendingRequests s'))"
    unfolding assms(5) using E by (rule distinct_snd_delete)
  show "(q, k') \<in> reqArmed s'" if "(k', q) \<in> set (pendingRequests s')" for k' q
  proof -
    have "k' \<noteq> k" "(k', q) \<in> set (pendingRequests s)"
      using that in_delete unfolding assms(5) by fastforce+
    then show ?thesis using C assms(4) by auto
  qed
qed

lemma once_fire_request:
  assumes "once s" and "map_of (timers s) (RequestTimer p k) = Some d"
  shows "once (requestTimedOut p k (clearTimer (RequestTimer p k) s))"
proof (rule once_expire [OF assms(1)])
  have "RequestTimer p k \<in> fst ` set (timers s)"
    using assms(2) by (metis map_of_SomeD fst_conv image_eqI)
  then show "(p, k) \<in> reqArmed s" by (simp add: reqArmed_def armed_def)
  show "settled (requestTimedOut p k (clearTimer (RequestTimer p k) s))
          = settled s @ [(p, Rejected (''Request '' @ k @ '' timed out''))]"
    by (simp add: requestTimedOut_def settle_def clearTimer_def)
  show "reqArmed (requestTimedOut p k (clearTimer (RequestTimer p k) s)) = reqArmed s - {(p, k)}"
    using reqArmed_clearTimer_req [of p k s]
    by (simp add: requestTimedOut_def settle_def reqArmed_def armed_def)
  show "pendingRequests (requestTimedOut p k (clearTimer (RequestTimer p k) s))
          = AList.delete k (pendingRequests s)"
    by (simp add: requestTimedOut_def settle_def clearTimer_def)
  show "fresh (requestTimedOut p k (clearTimer (RequestTimer p k) s)) = fresh s"
    by (simp add: requestTimedOut_def settle_def clearTimer_def)
qed

lemma once_resolve:
  assumes "once s" and "map_of (pendingRequests s) k = Some p"
  shows "once (settle p out (clearTimer (RequestTimer p k)
                 (s\<lparr> pendingRequests := AList.delete k (pendingRequests s) \<rparr>)))"
    (is "once ?s'")
proof (rule once_expire [OF assms(1)])
  have "(k, p) \<in> set (pendingRequests s)" using assms(2) by (rule map_of_SomeD)
  then show "(p, k) \<in> reqArmed s" using assms(1) unfolding once_def by auto
  let ?s1 = "s\<lparr> pendingRequests := AList.delete k (pendingRequests s) \<rparr>"
  have r1: "reqArmed ?s1 = reqArmed s" by (simp add: reqArmed_def armed_def)
  show "settled ?s' = settled s @ [(p, out)]"
    by (simp add: settle_def clearTimer_def)
  show "reqArmed ?s' = reqArmed s - {(p, k)}"
    using reqArmed_clearTimer_req [of p k ?s1] r1
    by (simp add: settle_def reqArmed_def armed_def)
  show "pendingRequests ?s' = AList.delete k (pendingRequests s)"
    by (simp add: settle_def clearTimer_def)
  show "fresh ?s' = fresh s" by (simp add: settle_def clearTimer_def)
qed

lemma once_handleMessage: "once s \<Longrightarrow> once (handleMessage e d s)"
proof -
  assume o: "once s"
  have q: "once (emit e ev s)" for ev by (rule once_quiet [OF quiet_emit o])
  have l: "once (logError m s)" for m by (rule once_quiet [OF quiet_logError o])
  show ?thesis
    unfolding handleMessage_def Let_def
    using q l o
    by (auto split: inbound.splits option.splits jsval.splits prod.splits intro!: once_resolve)
qed

lemma in_update:
  "(k', q) \<in> set (AList.update k v al) \<Longrightarrow> (k' = k \<and> q = v) \<or> (k', q) \<in> set al"
  by (induction al) (auto split: if_splits)

lemma distinct_snd_update:
  "distinct (map snd al) \<Longrightarrow> v \<notin> snd ` set al \<Longrightarrow> distinct (map snd (AList.update k v al))"
proof (induction al)
  case Nil
  then show ?case by simp
next
  case (Cons a al)
  obtain k' q where a: "a = (k', q)" by (cases a)
  show ?case
  proof (cases "k' = k")
    case True
    then show ?thesis using Cons.prems a by (auto simp: image_iff)
  next
    case False
    have "q \<notin> snd ` set (AList.update k v al)"
    proof
      assume "q \<in> snd ` set (AList.update k v al)"
      then obtain k2 where "(k2, q) \<in> set (AList.update k v al)" by auto
      then have "q = v \<or> (k2, q) \<in> set al" using in_update by fastforce
      then show False using Cons.prems a by (auto simp: image_iff)
    qed
    then show ?thesis using Cons a False by (auto simp: image_iff)
  qed
qed

lemma delete_update_same: "AList.delete k (AList.update k v al) = AList.delete k al"
  by (induction al) (auto simp: AList.delete_eq)

lemma once_send: "once s0 \<Longrightarrow> once (send e m s0)"
proof -
  assume o: "once s0"
  have A: "distinct (map fst (settled s0))"
    and B: "\<And>p. p \<in> fst ` set (settled s0) \<Longrightarrow> p < fresh s0 \<and> (\<forall>k. (p, k) \<notin> reqArmed s0)"
    and C: "\<And>k p. (k, p) \<in> set (pendingRequests s0) \<Longrightarrow> (p, k) \<in> reqArmed s0"
    and D: "\<And>p k. (p, k) \<in> reqArmed s0 \<Longrightarrow> p < fresh s0"
    and F: "\<And>p k k'. (p, k) \<in> reqArmed s0 \<Longrightarrow> (p, k') \<in> reqArmed s0 \<Longrightarrow> k = k'"
    and E: "distinct (map snd (pendingRequests s0))"
    using o unfolding once_def by auto
  let ?p = "fresh s0"
  let ?s = "s0\<lparr> fresh := ?p + 1 \<rparr>"
  have nset: "?p \<notin> fst ` set (settled s0)" using B by fastforce
  have narm: "(?p, k) \<notin> reqArmed s0" for k using D by fastforce
  have nval: "?p \<notin> snd ` set (pendingRequests s0)"
  proof
    assume "?p \<in> snd ` set (pendingRequests s0)"
    then obtain k where "(k, ?p) \<in> set (pendingRequests s0)" by auto
    then show False using C narm by blast
  qed
  have rs: "reqArmed ?s = reqArmed s0" by (simp add: reqArmed_def armed_def)
  have notc: "once (settle ?p out ?s)" for out
    by (rule once_settle_one [OF o, of _ ?p out])
       (use nset narm C E rs in \<open>auto simp: settle_def reqArmed_def armed_def\<close>)
  let ?id = "if msg_id m \<noteq> [] then msg_id m else genId e"
  let ?d = "now e + orElse (timeout (config ?s)) 30000"
  let ?s1 = "(setTimer (RequestTimer ?p ?id) ?d ?s)
               \<lparr> pendingRequests := AList.update ?id ?p (pendingRequests ?s) \<rparr>"
  have r1: "reqArmed ?s1 = insert (?p, ?id) (reqArmed s0)"
    using reqArmed_setTimer_req [of ?p ?id ?d ?s] rs by (simp add: reqArmed_def armed_def)
  have f1: "settled ?s1 = settled s0" "fresh ?s1 = ?p + 1"
    "pendingRequests ?s1 = AList.update ?id ?p (pendingRequests s0)"
    by (simp_all add: setTimer_def)
  have o1: "once ?s1"
    unfolding once_def f1 r1
  proof (intro conjI)
    show "distinct (map fst (settled s0))" by (rule A)
    show "\<forall>p\<in>fst ` set (settled s0). p < ?p + 1 \<and> (\<forall>k. (p, k) \<notin> insert (?p, ?id) (reqArmed s0))"
      using B by fastforce
    show "\<forall>(k, p)\<in>set (AList.update ?id ?p (pendingRequests s0)).
            (p, k) \<in> insert (?p, ?id) (reqArmed s0)"
      using in_update C by fastforce
    show "\<forall>(p, k)\<in>insert (?p, ?id) (reqArmed s0). p < ?p + 1"
      using D by fastforce
    show "\<forall>p k k'. (p, k) \<in> insert (?p, ?id) (reqArmed s0)
            \<and> (p, k') \<in> insert (?p, ?id) (reqArmed s0) \<longrightarrow> k = k'"
      using F narm by auto
    show "distinct (map snd (AList.update ?id ?p (pendingRequests s0)))"
      using E nval by (rule distinct_snd_update)
  qed
  have sent: "once s2" if "ws_send e k f ?s1 = Inr s2" for k f s2
    by (rule once_quiet [OF quiet_ws_send [OF that] o1])
  let ?s3 = "clearTimer (RequestTimer ?p ?id)
               (?s1\<lparr> pendingRequests := AList.delete ?id (pendingRequests ?s1) \<rparr>)"
  have r3: "reqArmed ?s3 = reqArmed s0"
    using reqArmed_clearTimer_req
            [of ?p ?id "?s1\<lparr> pendingRequests := AList.delete ?id (pendingRequests ?s1) \<rparr>"]
          r1 narm [of ?id]
    by (simp add: reqArmed_def armed_def)
  have f3: "settled ?s3 = settled s0" "fresh ?s3 = ?p + 1"
    "pendingRequests ?s3 = AList.delete ?id (pendingRequests s0)"
    by (simp_all add: setTimer_def clearTimer_def delete_update_same)
  have failed: "once (settle ?p out ?s3)" for out
  proof (rule once_settle_one [OF o, of _ ?p out])
    show "settled (settle ?p out ?s3) = settled s0 @ [(?p, out)]"
      using f3 by (simp add: settle_def)
    show "?p \<notin> fst ` set (settled s0)" by (rule nset)
    show "?p < fresh (settle ?p out ?s3)" using f3 by (simp add: settle_def)
    show "fresh s0 \<le> fresh (settle ?p out ?s3)" using f3 by (simp add: settle_def)
    have rr: "reqArmed (settle ?p out ?s3) = reqArmed s0"
      using r3 by (simp add: settle_def reqArmed_def armed_def)
    show "reqArmed (settle ?p out ?s3) \<subseteq> reqArmed s0" using rr by simp
    show "(?p, k) \<notin> reqArmed (settle ?p out ?s3)" for k using rr narm by simp
    have pp: "pendingRequests (settle ?p out ?s3) = AList.delete ?id (pendingRequests s0)"
      using f3 by (simp add: settle_def)
    show "set (pendingRequests (settle ?p out ?s3)) \<subseteq> set (pendingRequests s0)"
      unfolding pp by (rule set_delete_subset)
    show "distinct (map snd (pendingRequests (settle ?p out ?s3)))"
      unfolding pp using E by (rule distinct_snd_delete)
    show "(q, k) \<in> reqArmed (settle ?p out ?s3)"
      if "(k, q) \<in> set (pendingRequests (settle ?p out ?s3))" for k q
      using that in_delete C unfolding pp rr by fastforce
  qed
  show ?thesis
    unfolding send_def Let_def
    using notc sent failed
    by (auto split: option.splits sum.splits)
qed

lemma once_q: "once s \<Longrightarrow> quiet s s' \<Longrightarrow> once s'"
  by (rule once_quiet)

lemma once_handleDisconnect: "once s \<Longrightarrow> once (handleDisconnect e s)"
proof -
  assume o: "once s"
  let ?s2 = "setState e DISCONNECTED (clearTimers s)"
  have "quiet s ?s2" by (rule quiet_trans [OF quiet_clearTimers quiet_setState])
  then have o2: "once ?s2" by (rule once_q [OF o])
  have o3: "once (rejectAllPending ''Connection lost'' ?s2)"
    by (rule once_rejectAllPending [OF o2])
  have o4: "once (scheduleReconnect e (rejectAllPending ''Connection lost'' ?s2))"
    by (rule once_q [OF o3 quiet_scheduleReconnect])
  show ?thesis
    unfolding handleDisconnect_def Let_def using o3 o4 by simp
qed

lemma once_connectFailed: "once s \<Longrightarrow> once (connectFailed e who m s)"
proof -
  assume o: "once s"
  let ?s1 = "setState e ERROR s"
  let ?s2 = "?s1\<lparr> connectLog := connectLog ?s1 @ [(who, Some m)] \<rparr>"
  have o1: "once ?s1" by (rule once_q [OF o quiet_setState])
  have "quiet ?s1 ?s2" by (simp add: rdefs)
  then have o2: "once ?s2" by (rule once_q [OF o1])
  have o3: "once (logError ''Reconnection failed:'' ?s2)"
    by (rule once_q [OF o2 quiet_logError])
  show ?thesis
    unfolding connectFailed_def Let_def
    using o2 once_handleDisconnect [OF o3] by (cases who) simp_all
qed

lemma once_update_sockets: "once (x\<lparr> sockets := v \<rparr>) = once x"
  by (simp add: once_def reqArmed_def armed_def)

lemma once_rejectConnect: "once s \<Longrightarrow> once (rejectConnect e k m s)"
  unfolding rejectConnect_def
  by (auto split: option.splits intro!: once_connectFailed simp: once_update_sockets)

lemma once_createConnection: "once s \<Longrightarrow> once (createConnection e who s)"
proof -
  assume o: "once s"
  have "quiet s (setTimer (ConnectTimer k) d (s\<lparr> ws := a, sockets := b \<rparr>))" for k d a b
  proof -
    have "quiet s (s\<lparr> ws := a, sockets := b \<rparr>)" by (simp add: rdefs)
    moreover have "quiet (s\<lparr> ws := a, sockets := b \<rparr>)
                     (setTimer (ConnectTimer k) d (s\<lparr> ws := a, sockets := b \<rparr>))"
      by (rule quiet_setTimer_other) simp
    ultimately show ?thesis by (rule quiet_trans)
  qed
  then show ?thesis
    using o unfolding createConnection_def Let_def
    by (auto intro: once_q once_connectFailed)
qed

lemma once_connect: "once s \<Longrightarrow> once (connect e who s)"
proof -
  assume o: "once s"
  let ?s1 = "setState e CONNECTING s"
  have o1: "once ?s1" by (rule once_q [OF o quiet_setState])
  have "quiet ?s1 (?s1\<lparr> reconnectAttempts := 0 \<rparr>)" by (simp add: rdefs)
  then have "once (?s1\<lparr> reconnectAttempts := 0 \<rparr>)" by (rule once_q [OF o1])
  then show ?thesis using o by (simp add: connect_def once_createConnection)
qed

lemma once_disconnect: "once s \<Longrightarrow> once (disconnect e s)"
proof (cases "state s = DISCONNECTED")
  case True
  assume "once s"
  then show ?thesis using True by (simp add: disconnect_def)
next
  case False
  assume o: "once s"
  let ?s2 = "clearTimers (setState e DISCONNECTING s)"
  have "quiet s ?s2" by (rule quiet_trans [OF quiet_setState quiet_clearTimers])
  then have o2: "once ?s2" by (rule once_q [OF o])
  let ?s3 = "rejectAllPending ''Transport disconnected'' ?s2"
  have o3: "once ?s3" by (rule once_rejectAllPending [OF o2])
  have fin: "once (setState e DISCONNECTED x)" if "once x" for x
    by (rule once_q [OF that quiet_setState])
  have upd: "once (x\<lparr> ws := u \<rparr>) = once x" for x u
    by (simp add: once_def reqArmed_def armed_def)
  have cl: "once (ws_close k x)" if "once x" for k x
    by (rule once_q [OF that quiet_ws_close])
  show ?thesis
    using False o3 unfolding disconnect_def Let_def
    by (auto split: option.splits intro!: fin cl simp: upd once_update_sockets)
qed

lemma once_onOpen: "once s \<Longrightarrow> once (onOpen e k s)"
proof -
  assume o: "once s"
  let ?s1 = "clearTimer (ConnectTimer k) (setReadyState k 1 s)"
  have "quiet s ?s1"
    by (rule quiet_trans [OF quiet_setReadyState quiet_clearTimer_other]) simp
  then have o1: "once ?s1" by (rule once_q [OF o])
  let ?s2 = "setState e CONNECTED ?s1"
  have o2: "once ?s2" by (rule once_q [OF o1 quiet_setState])
  have "quiet ?s2 (?s2\<lparr> reconnectAttempts := 0 \<rparr>)" by (simp add: rdefs)
  then have o3: "once (?s2\<lparr> reconnectAttempts := 0 \<rparr>)" by (rule once_q [OF o2])
  have o4: "once (startHeartbeat e (?s2\<lparr> reconnectAttempts := 0 \<rparr>))"
    by (rule once_q [OF o3 quiet_startHeartbeat])
  have o5: "once (emit e EV_CONNECTED (startHeartbeat e (?s2\<lparr> reconnectAttempts := 0 \<rparr>)))"
    by (rule once_q [OF o4 quiet_emit])
  show ?thesis
    unfolding onOpen_def Let_def by (rule once_q [OF o5 quiet_resolveConnect])
qed

lemma once_onClose: "once s \<Longrightarrow> once (onClose e k s)"
proof -
  assume o: "once s"
  have "quiet s (clearTimer (ConnectTimer k) (setReadyState k 3 s))"
    by (rule quiet_trans [OF quiet_setReadyState quiet_clearTimer_other]) simp
  then have "once (clearTimer (ConnectTimer k) (setReadyState k 3 s))" by (rule once_q [OF o])
  then show ?thesis unfolding onClose_def by (rule once_handleDisconnect)
qed

lemma once_errorListener: "once s \<Longrightarrow> once (fst (errorListener e k s))"
proof -
  assume o: "once s"
  have "quiet s (clearTimer (ConnectTimer k) s)" by (rule quiet_clearTimer_other) simp
  then have o1: "once (clearTimer (ConnectTimer k) s)" by (rule once_q [OF o])
  have o2: "once (logError ''WebSocket error:'' (clearTimer (ConnectTimer k) s))"
    by (rule once_q [OF o1 quiet_logError])
  have o3: "once (emit e EV_ERROR (logError ''WebSocket error:'' (clearTimer (ConnectTimer k) s)))"
    by (rule once_q [OF o2 quiet_emit])
  show ?thesis
    unfolding errorListener_def Let_def using o3 by simp
qed

lemma once_onError: "once s \<Longrightarrow> once (onError e k s)"
  using once_errorListener [of s e k] unfolding onError_def
  by (auto split: prod.splits option.splits intro!: once_rejectConnect)

lemma once_onErrorClose: "once s \<Longrightarrow> once (onErrorClose e k s)"
  using once_errorListener [of s e k] unfolding onErrorClose_def
  by (auto split: prod.splits option.splits
           intro!: once_rejectConnect once_onClose once_onError)

lemma once_onConnectTimeout: "once s \<Longrightarrow> once (onConnectTimeout e k s)"
proof -
  assume o: "once s"
  have "once (case ws s of None \<Rightarrow> s | Some j \<Rightarrow> ws_close j s)"
    using o by (auto split: option.splits intro: once_q)
  then show ?thesis unfolding onConnectTimeout_def Let_def by (rule once_rejectConnect)
qed

lemma once_fire: "once s \<Longrightarrow> once (fire e t s)"
proof (cases "map_of (timers s) t")
  case None
  assume "once s"
  then show ?thesis using None by (simp add: fire_def)
next
  case (Some d)
  assume o: "once s"
  have other: "once (clearTimer t s)" if "\<And>p k. t \<noteq> RequestTimer p k"
    by (rule once_q [OF o quiet_clearTimer_other]) (rule that)
  show ?thesis
  proof (cases "now e < d")
    case True
    then show ?thesis using Some o by (simp add: fire_def)
  next
    case False
    show ?thesis
    proof (cases t)
      case (RequestTimer p k)
      then show ?thesis
        using Some False once_fire_request [OF o, of p k d] by (simp add: fire_def)
    next
      case (ConnectTimer k)
      then show ?thesis
        using Some False other by (simp add: fire_def once_onConnectTimeout)
    next
      case (ReconnectTimer n)
      then show ?thesis
        using Some False other by (simp add: fire_def once_connect)
    next
      case (HeartbeatTimer n)
      then show ?thesis
        using Some False other by (simp add: fire_def once_q [OF _ quiet_onHeartbeat])
    next
      case (WaitTimer w)
      then show ?thesis
        using Some False other by (simp add: fire_def once_q [OF _ quiet_waitTimedOut])
    next
      case (MailDeadline n)
      then show ?thesis
        using Some False other by (simp add: fire_def)
    qed
  qed
qed

lemma once_step: "once s \<Longrightarrow> once (step e i s)"
  by (cases i)
     (auto intro: once_connect once_disconnect once_send once_onOpen once_onClose once_onError
                  once_onErrorClose once_handleMessage once_fire
                  once_q [OF _ quiet_sendMail] once_q [OF _ quiet_sendMailTo]
                  once_q [OF _ quiet_sendAndWait] once_q [OF _ quiet_onMail]
                  once_q [OF _ quiet_offMail])

lemma once_run: "once s \<Longrightarrow> once (run evs s)"
proof (induction evs arbitrary: s)
  case Nil
  then show ?case by simp
next
  case (Cons a evs)
  then show ?case by (cases a) (simp add: once_step)
qed

lemma once_newSystem: "once (newSystem u inBrowser)"
  by (simp add: once_def newSystem_def reqArmed_def armed_def)

lemma deadlines_clearTimer_other:
  "(\<And>p k. t \<noteq> RequestTimer p k) \<Longrightarrow> deadlines (clearTimer t s) = deadlines s"
  by (cases t) (auto simp: deadlines_def clearTimer_def delete_conv' fun_eq_iff)

lemma deadlines_setTimer_other:
  "(\<And>p k. t \<noteq> RequestTimer p k) \<Longrightarrow> deadlines (setTimer t d s) = deadlines s"
  by (cases t) (auto simp: deadlines_def setTimer_def update_conv' fun_eq_iff)

lemma deadlines_timers: "timers s' = timers s \<Longrightarrow> deadlines s' = deadlines s"
  by (simp add: deadlines_def)

lemma deadlines_logError [simp]: "deadlines (logError m s) = deadlines s"
  by (simp add: deadlines_def logError_def)

lemma deadlines_ws_send: "ws_send e k f s = Inr s' \<Longrightarrow> deadlines s' = deadlines s"
  by (auto simp: deadlines_def ws_send_def split: if_splits)

lemma deadlines_cleanup [simp]: "deadlines (cleanup w s) = deadlines s"
  using deadlines_clearTimer_other [of "WaitTimer w" s]
  by (simp add: cleanup_def deadlines_def)

lemma deadlines_settleWait [simp]: "deadlines (settleWait w out s) = deadlines s"
  by (simp add: deadlines_def settleWait_def split: option.splits)

lemma deadlines_deliver [simp]: "deadlines (deliver mail h s) = deadlines s"
proof -
  have b: "deadlines (s\<lparr> received := r \<rparr>) = deadlines s" for r by (simp add: deadlines_def)
  show ?thesis
    unfolding deliver_def
    by (simp add: b split: mail_handler.splits option.splits sum.splits bool.splits)
qed

lemma deadlines_fold_deliver [simp]: "deadlines (fold (deliver mail) hs s) = deadlines s"
  by (induction hs arbitrary: s) simp_all

lemma deadlines_emitMail [simp]: "deadlines (emitMail mail s) = deadlines s"
  by (simp add: emitMail_def)

lemma deadlines_handleMailMessage [simp]: "deadlines (handleMailMessage e m s) = deadlines s"
proof -
  have a: "deadlines (x\<lparr> userEmail := u, defaultFrom := d \<rparr>) = deadlines x"
    "deadlines (x\<lparr> uiAgentEmail := v \<rparr>) = deadlines x" for x u d v
    by (simp_all add: deadlines_def)
  show ?thesis
    unfolding handleMailMessage_def Let_def by (simp add: a)
qed

lemma deadlines_emit_message [simp]: "deadlines (emit e (EV_MESSAGE m) s) = deadlines s"
proof -
  have a: "deadlines (x\<lparr> emitted := v \<rparr>) = deadlines x" for x v by (simp add: deadlines_def)
  show ?thesis unfolding emit_def Let_def by (simp add: a)
qed

lemma deadlines_waitTimedOut [simp]: "deadlines (waitTimedOut w s) = deadlines s"
  unfolding waitTimedOut_def by (simp split: option.splits)

lemma deadlines_onHeartbeat [simp]: "deadlines (onHeartbeat e n s) = deadlines s"
proof -
  let ?s1 = "setTimer (HeartbeatTimer n) (now e + orElse (heartbeatInterval (config s)) 30000) s"
  have a: "deadlines ?s1 = deadlines s" by (rule deadlines_setTimer_other) simp
  have b: "deadlines (?s1\<lparr> wire := v \<rparr>) = deadlines s" for v using a by (simp add: deadlines_def)
  have d: "deadlines s2 = deadlines s" if "ws_send e k f ?s1 = Inr s2" for k f s2
    using deadlines_ws_send [OF that] a by simp
  show ?thesis
    unfolding onHeartbeat_def Let_def
    by (auto simp: a b split: option.splits sum.splits dest: d)
qed

lemma deadlines_sendMail [simp]: "deadlines (snd (sendMail e m s)) = deadlines s"
  unfolding sendMail_def
  by (auto split: option.splits sum.splits dest: deadlines_ws_send)

lemma deadlines_sendMailTo [simp]: "deadlines (snd (sendMailTo e to subj bdy opts s)) = deadlines s"
proof -
  let ?s1 = "(setTimer (MailDeadline (fresh s)) (now e + opt_timeout opts) s)\<lparr> fresh := Suc (fresh s) \<rparr>"
  have a: "deadlines ?s1 = deadlines s"
    using deadlines_setTimer_other [of "MailDeadline (fresh s)" "now e + opt_timeout opts" s]
    by (simp add: deadlines_def)
  have b: "deadlines (snd (sendMail e m ?s1)) = deadlines s" for m
    using a by simp
  show ?thesis unfolding sendMailTo_def Let_def by (simp add: a)
qed

lemma deadlines_sendAndWait [simp]: "deadlines (sendAndWait e to subj bdy opts s) = deadlines s"
proof -
  obtain d v hs mo where sh:
    "sendAndWait e to subj bdy opts s =
       (case sendMailTo e to subj bdy mo
               ((setTimer (WaitTimer (fresh s)) d s)
                  \<lparr> waits := v, mailHandlers := hs, fresh := Suc (fresh s) \<rparr>) of
          (None, s2) \<Rightarrow>
            s2\<lparr> waits := map (\<lambda>(n, wt). if n = fresh s then (n, wt\<lparr> w_following := True \<rparr>)
                                        else (n, wt)) (waits s2) \<rparr>
        | (Some err, s2) \<Rightarrow> s2\<lparr> waitSettled := waitSettled s2 @ [(fresh s, Rejected err)] \<rparr>)"
    using sendAndWait_shape [of e to subj bdy opts s] by blast
  let ?s1 = "(setTimer (WaitTimer (fresh s)) d s)
                  \<lparr> waits := v, mailHandlers := hs, fresh := Suc (fresh s) \<rparr>"
  have a: "deadlines ?s1 = deadlines s"
    using deadlines_setTimer_other [of "WaitTimer (fresh s)" d s] by (simp add: deadlines_def)
  have b: "deadlines (snd (sendMailTo e to subj bdy mo ?s1)) = deadlines s"
    using a by simp
  have c: "deadlines (s2\<lparr> waits := v' \<rparr>) = deadlines s2"
    "deadlines (s2\<lparr> waitSettled := u \<rparr>) = deadlines s2" for s2 v' u
    by (simp_all add: deadlines_def)
  show ?thesis
    unfolding sh using b
    by (cases "sendMailTo e to subj bdy mo ?s1") (auto split: option.splits simp: c)
qed

lemma deadlines_onMail [simp]: "deadlines (onMail s) = deadlines s"
  unfolding onMail_def Let_def by (simp add: deadlines_def)

lemma deadlines_offMail [simp]: "deadlines (offMail n s) = deadlines s"
  unfolding offMail_def by (simp add: deadlines_def)

lemma keeps_quiet: "quiet s s' \<Longrightarrow> deadlines s' = deadlines s \<Longrightarrow> keeps k s s'"
  by (simp add: keeps_def quiet_def rview_def)

lemma keeps_refl [simp]: "keeps k s s"
  by (simp add: keeps_def)

lemma keeps_trans: "keeps k s s' \<Longrightarrow> keeps k s' s'' \<Longrightarrow> keeps k s s''"
  by (simp add: keeps_def)

lemma held_keeps: "held k p t s \<Longrightarrow> keeps k s s' \<Longrightarrow> once s' \<Longrightarrow> held k p t s'"
  by (simp add: held_def keeps_def)

lemma keeps_send:
  assumes "(if msg_id m \<noteq> [] then msg_id m else genId e) \<noteq> k"
  shows "keeps k s (send e m s)"
  using assms unfolding keeps_def send_def Let_def deadlines_def
  by (auto simp: settle_def setTimer_def clearTimer_def ws_send_def update_conv' delete_conv'
           isConnected_def split: option.splits)

lemma keeps_handleMessage:
  assumes "case d of Unparsable \<Rightarrow> True | Parsed frame \<Rightarrow> getProp frame ''id'' \<noteq> JStr k"
  shows "keeps k s (handleMessage e d s)"
proof (cases d)
  case Unparsable
  then show ?thesis
    by (simp add: handleMessage_def keeps_quiet)
next
  case (Parsed frame)
  then have ne: "getProp frame ''id'' \<noteq> JStr k" using assms by simp
  have em: "keeps k s (emit e (EV_MESSAGE frame) s)"
    by (rule keeps_quiet) simp_all
  have lg: "keeps k s (logError ''Failed to parse message:'' s)"
    by (rule keeps_quiet) simp_all
  have res: "keeps k s (settle p (Resolved r)
               (clearTimer (RequestTimer p k')
                  (s\<lparr> pendingRequests := AList.delete k' (pendingRequests s) \<rparr>)))"
    if "k' \<noteq> k" for p r k'
    using that
    by (auto simp: keeps_def deadlines_def settle_def clearTimer_def delete_conv')
  show ?thesis
    unfolding handleMessage_def Let_def Parsed
    using ne em lg
    by (auto split: jsval.splits option.splits intro!: res)
qed

lemma keeps_fire:
  assumes "case t of RequestTimer p k' \<Rightarrow> k' \<noteq> k | HeartbeatTimer n \<Rightarrow> True
           | WaitTimer w \<Rightarrow> True | MailDeadline n \<Rightarrow> True | _ \<Rightarrow> False"
  shows "keeps k s (fire e t s)"
proof -
  have other: "keeps k s (clearTimer t s)" if "\<And>p k. t \<noteq> RequestTimer p k"
    using quiet_clearTimer_other [of t s] deadlines_clearTimer_other [of t s] that
    by (intro keeps_quiet) auto
  have q: "keeps k s s''" if "keeps k s s'" "quiet s' s''" "deadlines s'' = deadlines s'" for s' s''
    using that(1) keeps_quiet [OF that(2,3)] by (rule keeps_trans)
  show ?thesis
  proof (cases t)
    case (RequestTimer p k')
    then have "k' \<noteq> k" using assms by simp
    then have "keeps k s (requestTimedOut p k' (clearTimer (RequestTimer p k') s))"
      by (auto simp: keeps_def deadlines_def requestTimedOut_def settle_def clearTimer_def
                     delete_conv')
    then show ?thesis using RequestTimer by (simp add: fire_def split: option.splits)
  next
    case (ConnectTimer x)
    then show ?thesis using assms by simp
  next
    case (ReconnectTimer x)
    then show ?thesis using assms by simp
  next
    case (HeartbeatTimer n)
    have "keeps k s (onHeartbeat e n (clearTimer (HeartbeatTimer n) s))"
      using HeartbeatTimer by (intro q [OF other]) simp_all
    then show ?thesis using HeartbeatTimer by (simp add: fire_def split: option.splits)
  next
    case (WaitTimer w)
    have "keeps k s (waitTimedOut w (clearTimer (WaitTimer w) s))"
      using WaitTimer by (intro q [OF other]) simp_all
    then show ?thesis using WaitTimer by (simp add: fire_def split: option.splits)
  next
    case (MailDeadline n)
    have "keeps k s (clearTimer (MailDeadline n) s)"
      using MailDeadline other by simp
    then show ?thesis using MailDeadline by (simp add: fire_def split: option.splits)
  qed
qed

lemma keeps_step: "undisturbed k e i \<Longrightarrow> keeps k s (step e i s)"
proof (cases i)
  case (Send m)
  assume "undisturbed k e i"
  then show ?thesis using Send by (simp add: undisturbed_def keeps_send)
next
  case (SockMessage j d)
  assume "undisturbed k e i"
  then show ?thesis using SockMessage by (simp add: undisturbed_def keeps_handleMessage)
next
  case (Fire t)
  assume "undisturbed k e i"
  then show ?thesis using Fire by (simp add: undisturbed_def keeps_fire)
qed (auto simp: undisturbed_def intro!: keeps_quiet)

lemma held_step:
  assumes "held k p t s" and "undisturbed k e i"
  shows "held k p t (step e i s)"
proof -
  have o: "once (step e i s)" using assms(1) by (simp add: held_def once_step)
  show ?thesis by (rule held_keeps [OF assms(1) keeps_step [OF assms(2)] o])
qed

lemma held_run:
  "held k p t s \<Longrightarrow> list_all (\<lambda>(e, i). undisturbed k e i) evs \<Longrightarrow> held k p t (run evs s)"
proof (induction evs arbitrary: s)
  case Nil
  then show ?case by simp
next
  case (Cons a evs)
  then show ?case by (cases a) (simp add: held_step)
qed

lemma held_send:
  assumes "once s" and "state s = CONNECTED" and "ws s = Some j" and "sendOk e"
    and "\<forall>p'. map_of (timers s) (RequestTimer p' (if msg_id m \<noteq> [] then msg_id m else genId e)) = None"
  shows "held (if msg_id m \<noteq> [] then msg_id m else genId e) (fresh s)
           (now e + orElse (timeout (config s)) 30000) (send e m s)"
proof -
  have "deadlines (send e m s) p' (if msg_id m \<noteq> [] then msg_id m else genId e)
          = (if p' = fresh s then Some (now e + orElse (timeout (config s)) 30000) else None)" for p'
    using assms(2-5)
    by (simp add: deadlines_def send_def Let_def isConnected_def ws_send_def setTimer_def
                  update_conv')
  moreover have "map_of (pendingRequests (send e m s))
                   (if msg_id m \<noteq> [] then msg_id m else genId e) = Some (fresh s)"
    using assms(2-4)
    by (simp add: send_def Let_def isConnected_def ws_send_def setTimer_def update_conv')
  ultimately show ?thesis
    using once_send [OF assms(1), of e m] unfolding held_def by blast
qed

lemma held_unsettled:
  assumes "held k p t s"
  shows "p \<notin> fst ` set (settled s)"
proof
  assume a: "p \<in> fst ` set (settled s)"
  have o: "once s" and d: "map_of (timers s) (RequestTimer p k) = Some t"
    using assms by (simp_all add: held_def deadlines_def)
  have "(RequestTimer p k, t) \<in> set (timers s)" using d by (rule map_of_SomeD)
  then have "RequestTimer p k \<in> armed s" by (force simp: armed_def)
  then have ar: "(p, k) \<in> reqArmed s" by (simp add: reqArmed_def)
  have "\<forall>p \<in> fst ` set (settled s). p < fresh s \<and> (\<forall>k. (p, k) \<notin> reqArmed s)"
    using o unfolding once_def by blast
  then show False using a ar by blast
qed



end
